theory Spec2Isabelle
  imports Complex_Main
begin

section \<open>Public transport simulation: data model\<close>

text \<open>
  The program is a discrete-event simulation written against the simpy library: buses,
  passenger generators and a queue monitor are generator processes that suspend at every
  \<^verbatim>\<open>yield\<close>. The embedding keeps the program's objects and makes the
  scheduler explicit: the state holds the virtual clock, the pending events, the process
  table (each process with the program point where it is suspended and its live local
  variables), the stops, the passenger objects and the metrics dictionary.

  Virtual time is a Python float in the source; here it is an exact rational number.
  Random draws (exponential inter-arrival, Gaussian travel time, uniform choice of a
  destination) are inputs of each scheduler step, so every theorem holds for all draws.
\<close>

datatype error =
    ValueError          \<comment> \<open>negative delay, negative scale, list.index miss, bad horizon\<close>
  | ZeroDivisionError
  | IndexError
  | KeyError
  | Dangling            \<comment> \<open>a reference of the model that resolves to nothing\<close>

record route =
  stops :: "string list"
  headway :: rat
  num_buses :: nat
  travel_mean :: rat
  travel_sd :: rat

record config =
  ROUTES :: "(string \<times> route) list"
  ARRIVAL_RATES :: "(string \<times> rat) list"
  BUS_CAPACITY :: int
  BOARDING_TIME :: rat
  ALIGHTING_TIME :: rat
  MIN_DWELL :: rat
  SIM_TIME :: rat

definition default_config :: config where
  "default_config =
     \<lparr>ROUTES =
        [(''A'', \<lparr>stops = [''A1'', ''A2'', ''A3''], headway = 15, num_buses = 2,
                  travel_mean = 6, travel_sd = 1\<rparr>),
         (''B'', \<lparr>stops = [''B1'', ''B2'', ''B3''], headway = 12, num_buses = 2,
                  travel_mean = 5, travel_sd = 1\<rparr>)],
      ARRIVAL_RATES =
        [(''A1'', 35 / 100), (''A2'', 25 / 100), (''A3'', 20 / 100),
         (''B1'', 40 / 100), (''B2'', 30 / 100), (''B3'', 22 / 100)],
      BUS_CAPACITY = 40,
      BOARDING_TIME = 3 / 60,
      ALIGHTING_TIME = 2 / 60,
      MIN_DWELL = 1 / 10,
      SIM_TIME = 8 * 60\<rparr>"

record passenger =
  p_id :: string
  arrival_time :: rat
  origin :: string
  destination :: string
  board_time :: "rat option"
  alight_time :: "rat option"

text \<open>
  Passenger objects live in a heap, the list \<open>pax\<close> of the state; a passenger's address
  is its index there, and queues and buses hold addresses. A stop is identified by its
  name, the key of \<open>stops_map\<close>. \<open>items\<close> is the content of the stop's
  \<^verbatim>\<open>simpy.Store\<close> and \<open>get_queue\<close> the processes whose get request is
  pending on it.
\<close>

record stop =
  stop_name :: string
  items :: "nat list"
  get_queue :: "nat list"

datatype bus_pc =
    PStart            \<comment> \<open>created, not yet run\<close>
  | PStarted          \<comment> \<open>suspended at line 86\<close>
  | PAlighted         \<comment> \<open>suspended at line 96\<close>
  | PGet "nat option" \<comment> \<open>suspended at line 102; the passenger once the get has succeeded\<close>
  | PBoarded          \<comment> \<open>suspended at line 118\<close>
  | PDwelled          \<comment> \<open>suspended at line 122\<close>
  | PTravel           \<comment> \<open>suspended at line 133\<close>

record bus =
  bus_id :: string
  route_name :: string
  bus_stops :: "string list"
  route_info :: route
  capacity :: int
  onboard :: "nat list"
  current_index :: nat
  active_minutes :: rat
  occupied_minutes :: rat
  trips_completed :: nat
  start_time :: rat
  pc :: bus_pc
  cur_stop :: string    \<comment> \<open>local \<^verbatim>\<open>stop\<close>\<close>
  alighted :: nat       \<comment> \<open>\<^verbatim>\<open>len(alighting)\<close>\<close>
  free_space :: int
  boarded :: nat
  t :: rat
  step :: rat

datatype gen_pc = GStart | GWait

record gen =
  gen_stop :: string
  rate :: rat
  route_stops :: "string list"
  pid :: nat
  gpc :: gen_pc

datatype proc = GenP gen | BusP bus | MonP

record passenger_record =
  rec_id :: string
  rec_origin :: string
  rec_destination :: string
  rec_arrival :: rat
  rec_board :: "rat option"
  rec_alight :: "rat option"
  rec_route :: string
  rec_bus :: string

record bus_stat =
  stat_active_minutes :: rat
  stat_occupied_minutes :: rat
  stat_trips_completed :: nat

record metrics =
  waiting_times :: "rat list"
  passenger_records :: "passenger_record list"
  queue_time_series :: "(string \<times> (rat \<times> nat) list) list"
  bus_stats :: "(string \<times> bus_stat) list"
  served_per_stop :: "(string \<times> nat) list"

datatype target =
    Resume nat        \<comment> \<open>resume the process with this index\<close>
  | PutDone string    \<comment> \<open>a put on this stop's store was processed\<close>

record event =
  ev_time :: rat
  ev_prio :: nat      \<comment> \<open>0 urgent (process start), 1 normal\<close>
  ev_id :: nat
  ev_target :: target

record sim =
  cfg :: config
  now :: rat
  next_eid :: nat
  queue :: "event list"
  procs :: "proc list"
  stops_map :: "(string \<times> stop) list"
  pax :: "passenger list"
  metrics :: metrics

text \<open>One scheduler step receives the random draws the resumed process may make.\<close>

record draw =
  expo :: rat     \<comment> \<open>\<^verbatim>\<open>np.random.exponential(1/rate)\<close>\<close>
  gauss :: rat    \<comment> \<open>\<^verbatim>\<open>random.gauss(travel_mean, travel_sd)\<close>\<close>
  pick :: nat     \<comment> \<open>the index \<^verbatim>\<open>random.choice\<close> draws, reduced modulo the length\<close>

section \<open>Dictionaries\<close>

text \<open>
  A Python dict is an association list in insertion order; assigning to an existing key
  keeps its position.
\<close>

fun dict_set :: "'k \<Rightarrow> 'v \<Rightarrow> ('k \<times> 'v) list \<Rightarrow> ('k \<times> 'v) list" where
  "dict_set k v [] = [(k, v)]"
| "dict_set k v ((k', v') # kvs) =
     (if k = k' then (k, v) # kvs else (k', v') # dict_set k v kvs)"

section \<open>Scheduler\<close>

fun ev_before :: "event \<Rightarrow> event \<Rightarrow> bool" where
  "ev_before a b =
     (ev_time a < ev_time b \<or>
      (ev_time a = ev_time b \<and>
        (ev_prio a < ev_prio b \<or> (ev_prio a = ev_prio b \<and> ev_id a < ev_id b))))"

fun min_event :: "event \<Rightarrow> event list \<Rightarrow> event" where
  "min_event e [] = e"
| "min_event e (x # xs) = min_event (if ev_before x e then x else e) xs"

definition pop_event :: "event list \<Rightarrow> (event \<times> event list) option" where
  "pop_event q =
     (case q of [] \<Rightarrow> None
      | e # es \<Rightarrow> (let m = min_event e es in Some (m, remove1 m q)))"

definition schedule :: "rat \<Rightarrow> nat \<Rightarrow> target \<Rightarrow> sim \<Rightarrow> sim" where
  "schedule delay prio tg s =
     s\<lparr>queue := queue s @
          [\<lparr>ev_time = now s + delay, ev_prio = prio, ev_id = next_eid s, ev_target = tg\<rparr>],
       next_eid := Suc (next_eid s)\<rparr>"

text \<open>\<^verbatim>\<open>env.timeout(delay)\<close> yielded by process \<open>p\<close>; a negative delay raises.\<close>

definition timeout :: "rat \<Rightarrow> nat \<Rightarrow> sim \<Rightarrow> error + sim" where
  "timeout delay p s =
     (if delay < 0 then Inl ValueError else Inr (schedule delay 1 (Resume p) s))"

definition set_proc :: "nat \<Rightarrow> proc \<Rightarrow> sim \<Rightarrow> sim" where
  "set_proc p v s = s\<lparr>procs := (procs s)[p := v]\<rparr>"

text \<open>\<^verbatim>\<open>env.process(generator)\<close>: a new process, started by an urgent event.\<close>

definition process :: "proc \<Rightarrow> sim \<Rightarrow> sim" where
  "process v s = schedule 0 0 (Resume (length (procs s))) (s\<lparr>procs := procs s @ [v]\<rparr>)"

section \<open>Stop: the store of waiting passengers\<close>

definition set_stop :: "string \<Rightarrow> stop \<Rightarrow> sim \<Rightarrow> sim" where
  "set_stop n st s = s\<lparr>stops_map := dict_set n st (stops_map s)\<rparr>"

text \<open>
  A get request that succeeds with passenger \<open>a\<close>: the requesting bus will be resumed with
  \<open>a\<close> by a normal event at the current time.
\<close>

definition deliver :: "nat \<Rightarrow> nat \<Rightarrow> sim \<Rightarrow> error + sim" where
  "deliver g a s =
     (if g < length (procs s) then
        (case procs s ! g of
           BusP b \<Rightarrow> Inr (schedule 0 1 (Resume g) (set_proc g (BusP (b\<lparr>pc := PGet (Some a)\<rparr>)) s))
         | _ \<Rightarrow> Inl Dangling)
      else Inl Dangling)"

text \<open>
  The store serves its oldest pending get request with its oldest item, if it has both.
\<close>

definition trigger_get :: "string \<Rightarrow> sim \<Rightarrow> error + sim" where
  "trigger_get n s =
     (case map_of (stops_map s) n of
        None \<Rightarrow> Inl Dangling
      | Some st \<Rightarrow>
          (case get_queue st of
             [] \<Rightarrow> Inr s
           | g # gs \<Rightarrow>
               (case items st of
                  [] \<Rightarrow> Inr s
                | a # as \<Rightarrow> deliver g a (set_stop n (st\<lparr>items := as, get_queue := gs\<rparr>) s))))"

text \<open>\<^verbatim>\<open>Stop.get_passenger\<close> called by process \<open>p\<close>.\<close>

definition get_passenger :: "string \<Rightarrow> nat \<Rightarrow> sim \<Rightarrow> error + sim" where
  "get_passenger n p s =
     (case map_of (stops_map s) n of
        None \<Rightarrow> Inl Dangling
      | Some st \<Rightarrow> trigger_get n (set_stop n (st\<lparr>get_queue := get_queue st @ [p]\<rparr>) s))"

text \<open>
  \<^verbatim>\<open>Stop.add_passenger\<close>: the store is unbounded, the passenger is appended at once;
  the put event, processed later at the same time, lets the store serve a pending get.
\<close>

definition add_passenger :: "string \<Rightarrow> nat \<Rightarrow> sim \<Rightarrow> error + sim" where
  "add_passenger n a s =
     (case map_of (stops_map s) n of
        None \<Rightarrow> Inl Dangling
      | Some st \<Rightarrow> Inr (schedule 0 1 (PutDone n) (set_stop n (st\<lparr>items := items st @ [a]\<rparr>) s)))"

section \<open>Metrics\<close>

definition empty_metrics :: metrics where
  "empty_metrics =
     \<lparr>waiting_times = [], passenger_records = [], queue_time_series = [],
      bus_stats = [], served_per_stop = []\<rparr>"

text \<open>Lines 104 to 114: what one boarding appends to the metrics.\<close>

definition record_boarding :: "passenger \<Rightarrow> rat \<Rightarrow> bus \<Rightarrow> metrics \<Rightarrow> metrics" where
  "record_boarding psg tb b m =
     m\<lparr>waiting_times := waiting_times m @ [tb - arrival_time psg],
       passenger_records := passenger_records m @
         [\<lparr>rec_id = p_id psg, rec_origin = origin psg, rec_destination = destination psg,
           rec_arrival = arrival_time psg, rec_board = board_time psg,
           rec_alight = alight_time psg, rec_route = route_name b, rec_bus = bus_id b\<rparr>],
       served_per_stop :=
         (case map_of (served_per_stop m) (cur_stop b) of
            None \<Rightarrow> dict_set (cur_stop b) 1 (served_per_stop m)
          | Some k \<Rightarrow> dict_set (cur_stop b) (k + 1) (served_per_stop m))\<rparr>"

text \<open>Lines 131 and 132.\<close>

definition stat_travel :: "string \<Rightarrow> rat \<Rightarrow> rat \<Rightarrow> metrics \<Rightarrow> error + metrics" where
  "stat_travel bid act occ m =
     (case map_of (bus_stats m) bid of
        None \<Rightarrow> Inl KeyError
      | Some st \<Rightarrow>
          Inr (m\<lparr>bus_stats :=
                 dict_set bid
                   (st\<lparr>stat_active_minutes := stat_active_minutes st + act,
                       stat_occupied_minutes := stat_occupied_minutes st + occ\<rparr>)
                   (bus_stats m)\<rparr>))"

text \<open>Line 140.\<close>

definition stat_trip :: "string \<Rightarrow> metrics \<Rightarrow> error + metrics" where
  "stat_trip bid m =
     (case map_of (bus_stats m) bid of
        None \<Rightarrow> Inl KeyError
      | Some st \<Rightarrow>
          Inr (m\<lparr>bus_stats :=
                 dict_set bid (st\<lparr>stat_trips_completed := stat_trips_completed st + 1\<rparr>)
                   (bus_stats m)\<rparr>))"

section \<open>Bus process\<close>

definition suspend :: "nat \<Rightarrow> bus \<Rightarrow> bus_pc \<Rightarrow> sim \<Rightarrow> sim" where
  "suspend p b k s = set_proc p (BusP (b\<lparr>pc := k\<rparr>)) s"

text \<open>Line 125: the Gaussian draw \<open>g\<close> floored at half a minute.\<close>

definition travel_time :: "rat \<Rightarrow> rat" where
  "travel_time g = max (1 / 2) g"

text \<open>
  \<open>bus_exec l g p b s\<close> runs the body of \<^verbatim>\<open>Bus.run\<close> from program point \<open>l\<close>
  up to the next \<^verbatim>\<open>yield\<close>, for the bus \<open>b\<close> that is process \<open>p\<close>; \<open>g\<close> is the
  Gaussian draw, used if line 125 is reached. The program points are the starts of the
  sections of the loop body: alighting (line 88), boarding (line 99), the guard of the
  boarding loop (line 101), the dwell test (line 121), the travel draw (line 125), the guard
  of the travel loop (line 127) and the index advance (line 137).
\<close>

datatype label = LAlight | LBoard | LLoop | LDwell | LTravel | LWhile | LAdvance

function bus_exec :: "label \<Rightarrow> rat \<Rightarrow> nat \<Rightarrow> bus \<Rightarrow> sim \<Rightarrow> error + sim" where
  "bus_exec LAlight g p b s =
     (if current_index b < length (bus_stops b) then
        (let sn = bus_stops b ! current_index b;
             alighting = filter (\<lambda>a. destination (pax s ! a) = sn) (onboard b);
             s1 = s\<lparr>pax := foldl (\<lambda>h a. h[a := (h ! a)\<lparr>alight_time := Some (now s)\<rparr>])
                               (pax s) alighting\<rparr>;
             b1 = b\<lparr>cur_stop := sn,
                    onboard := foldl (\<lambda>xs a. remove1 a xs) (onboard b) alighting,
                    alighted := length alighting\<rparr>
         in if alighting \<noteq> [] then
              (case timeout (of_nat (length alighting) * ALIGHTING_TIME (cfg s)) p s1 of
                 Inl e \<Rightarrow> Inl e
               | Inr s2 \<Rightarrow> Inr (suspend p b1 PAlighted s2))
            else bus_exec LBoard g p b1 s1)
      else Inl IndexError)"
| "bus_exec LBoard g p b s =
     bus_exec LLoop g p
       (b\<lparr>free_space := capacity b - int (length (onboard b)), boarded := 0\<rparr>) s"
| "bus_exec LLoop g p b s =
     (case map_of (stops_map s) (cur_stop b) of
        None \<Rightarrow> Inl Dangling
      | Some st \<Rightarrow>
          if 0 < free_space b \<and> 0 < length (items st)
          then get_passenger (cur_stop b) p (suspend p b (PGet None) s)
          else bus_exec LDwell g p b s)"
| "bus_exec LDwell g p b s =
     (if boarded b = 0 \<and> alighted b = 0 then
        (case timeout (MIN_DWELL (cfg s)) p s of
           Inl e \<Rightarrow> Inl e
         | Inr s1 \<Rightarrow> Inr (suspend p b PDwelled s1))
      else bus_exec LTravel g p b s)"
| "bus_exec LTravel g p b s = bus_exec LWhile g p (b\<lparr>t := travel_time g\<rparr>) s"
| "bus_exec LWhile g p b s =
     (if 0 < t b then
        (let st = min 1 (t b);
             occ = of_nat (length (onboard b)) * st;
             b1 = b\<lparr>step := st, active_minutes := active_minutes b + st,
                    occupied_minutes := occupied_minutes b + occ\<rparr>
         in case stat_travel (bus_id b) st occ (metrics s) of
              Inl e \<Rightarrow> Inl e
            | Inr m \<Rightarrow>
                (case timeout st p (s\<lparr>metrics := m\<rparr>) of
                   Inl e \<Rightarrow> Inl e
                 | Inr s1 \<Rightarrow> Inr (suspend p b1 PTravel s1)))
      else bus_exec LAdvance g p b s)"
| "bus_exec LAdvance g p b s =
     (if length (bus_stops b) = 0 then Inl ZeroDivisionError
      else
        (let b1 = b\<lparr>current_index := (current_index b + 1) mod length (bus_stops b)\<rparr>
         in if current_index b1 = 0 then
              (case stat_trip (bus_id b) (metrics s) of
                 Inl e \<Rightarrow> Inl e
               | Inr m \<Rightarrow>
                   bus_exec LAlight g p (b1\<lparr>trips_completed := trips_completed b1 + 1\<rparr>)
                     (s\<lparr>metrics := m\<rparr>))
            else bus_exec LAlight g p b1 s))"
  by pat_completeness auto

termination
proof (relation "measure (\<lambda>(l, g, p, b, s).
          case l of LWhile \<Rightarrow> (if 0 < t b then 0 else 7) | LTravel \<Rightarrow> 1 | LDwell \<Rightarrow> 2
          | LLoop \<Rightarrow> 3 | LBoard \<Rightarrow> 4 | LAlight \<Rightarrow> 5 | LAdvance \<Rightarrow> 6)")
qed (auto simp: travel_time_def)

declare bus_exec.simps [simp del]

text \<open>Lines 103 to 118: the bus is resumed with the passenger \<open>a\<close> its get returned.\<close>

definition bus_board :: "nat \<Rightarrow> nat \<Rightarrow> bus \<Rightarrow> sim \<Rightarrow> error + sim" where
  "bus_board a p b s =
     (let s1 = s\<lparr>pax := (pax s)[a := (pax s ! a)\<lparr>board_time := Some (now s)\<rparr>]\<rparr>;
          s2 = s1\<lparr>metrics := record_boarding (pax s1 ! a) (now s) b (metrics s1)\<rparr>;
          b1 = b\<lparr>onboard := onboard b @ [a], boarded := boarded b + 1,
                 free_space := free_space b - 1\<rparr>
      in case timeout (BOARDING_TIME (cfg s)) p s2 of
           Inl e \<Rightarrow> Inl e
         | Inr s3 \<Rightarrow> Inr (suspend p b1 PBoarded s3))"

text \<open>Resuming a bus continues after the \<^verbatim>\<open>yield\<close> it is suspended at.\<close>

definition bus_resume :: "rat \<Rightarrow> nat \<Rightarrow> bus \<Rightarrow> sim \<Rightarrow> error + sim" where
  "bus_resume g p b s =
     (case pc b of
        PStart \<Rightarrow>
          (case timeout (start_time b) p s of
             Inl e \<Rightarrow> Inl e
           | Inr s1 \<Rightarrow> Inr (suspend p b PStarted s1))
      | PStarted \<Rightarrow> bus_exec LAlight g p b s
      | PAlighted \<Rightarrow> bus_exec LBoard g p b s
      | PGet None \<Rightarrow> Inl Dangling
      | PGet (Some a) \<Rightarrow> bus_board a p b s
      | PBoarded \<Rightarrow> bus_exec LLoop g p b s
      | PDwelled \<Rightarrow> bus_exec LTravel g p b s
      | PTravel \<Rightarrow> bus_exec LWhile g p (b\<lparr>t := t b - step b\<rparr>) s)"

section \<open>Passenger generator\<close>

text \<open>\<^verbatim>\<open>list.index\<close>: the first position of \<open>x\<close>, or nothing (Python raises ValueError).\<close>

fun index_of :: "'a list \<Rightarrow> 'a \<Rightarrow> nat option" where
  "index_of [] x = None"
| "index_of (y # ys) x = (if y = x then Some 0 else map_option Suc (index_of ys x))"

text \<open>The decimal digits of a number, for the f-strings that build identifiers.\<close>

fun str_nat :: "nat \<Rightarrow> string" where
  "str_nat n =
     (if n < 10 then [char_of (48 + n)] else str_nat (n div 10) @ [char_of (48 + n mod 10)])"

declare str_nat.simps [simp del]

text \<open>
  Lines 151 and 152. \<open>r\<close> is the random index \<^verbatim>\<open>random.choice\<close> draws for the
  list of downstream stops.
\<close>

definition choose_destination :: "nat \<Rightarrow> string \<Rightarrow> string list \<Rightarrow> error + string" where
  "choose_destination r n rs =
     (case index_of rs n of
        None \<Rightarrow> Inl ValueError
      | Some idx \<Rightarrow>
          Inr (if idx + 1 < length rs
               then (let ds = drop (idx + 1) rs in ds ! (r mod length ds))
               else n))"

definition Passenger :: "string \<Rightarrow> rat \<Rightarrow> string \<Rightarrow> string \<Rightarrow> passenger" where
  "Passenger i tm orig dest =
     \<lparr>p_id = i, arrival_time = tm, origin = orig, destination = dest,
      board_time = None, alight_time = None\<rparr>"

text \<open>Lines 148 and 149: draw the inter-arrival time and suspend for it.\<close>

definition gen_wait :: "draw \<Rightarrow> nat \<Rightarrow> gen \<Rightarrow> sim \<Rightarrow> error + sim" where
  "gen_wait d p g s =
     (if rate g = 0 then Inl ZeroDivisionError
      else if 1 / rate g < 0 then Inl ValueError
      else
        (case timeout (expo d) p s of
           Inl e \<Rightarrow> Inl e
         | Inr s1 \<Rightarrow> Inr (set_proc p (GenP (g\<lparr>gpc := GWait\<rparr>)) s1)))"

text \<open>Lines 150 to 154, then the next turn of the loop.\<close>

definition gen_arrive :: "draw \<Rightarrow> nat \<Rightarrow> gen \<Rightarrow> sim \<Rightarrow> error + sim" where
  "gen_arrive d p g s =
     (let g1 = g\<lparr>pid := pid g + 1\<rparr> in
      case choose_destination (pick d) (gen_stop g) (route_stops g) of
        Inl e \<Rightarrow> Inl e
      | Inr dest \<Rightarrow>
          (let psg = Passenger (gen_stop g @ ''-'' @ str_nat (pid g1)) (now s) (gen_stop g) dest;
               a = length (pax s)
           in case add_passenger (gen_stop g) a (s\<lparr>pax := pax s @ [psg]\<rparr>) of
                Inl e \<Rightarrow> Inl e
              | Inr s1 \<Rightarrow> gen_wait d p g1 s1))"

definition passenger_generator :: "draw \<Rightarrow> nat \<Rightarrow> gen \<Rightarrow> sim \<Rightarrow> error + sim" where
  "passenger_generator d p g s =
     (case gpc g of GStart \<Rightarrow> gen_wait d p g s | GWait \<Rightarrow> gen_arrive d p g s)"

section \<open>Queue monitor\<close>

text \<open>Lines 162 to 164 for one stop.\<close>

definition sample ::
  "rat \<Rightarrow> stop \<Rightarrow> (string \<times> (rat \<times> nat) list) list \<Rightarrow> (string \<times> (rat \<times> nat) list) list" where
  "sample tm st q =
     (case map_of q (stop_name st) of
        None \<Rightarrow> dict_set (stop_name st) [(tm, length (items st))] q
      | Some xs \<Rightarrow> dict_set (stop_name st) (xs @ [(tm, length (items st))]) q)"

text \<open>One turn of the monitor's loop: sample every stop, then suspend for one minute.\<close>

definition monitor :: "nat \<Rightarrow> sim \<Rightarrow> error + sim" where
  "monitor p s =
     timeout 1 p
       (s\<lparr>metrics := (metrics s)\<lparr>queue_time_series :=
            foldl (\<lambda>q st. sample (now s) st q) (queue_time_series (metrics s))
              (map snd (stops_map s))\<rparr>\<rparr>)"

section \<open>Setup and run\<close>

definition Stop :: "string \<Rightarrow> stop" where
  "Stop n = \<lparr>stop_name = n, items = [], get_queue = []\<rparr>"

text \<open>Lines 173 to 176.\<close>

definition create_stops :: "(string \<times> route) list \<Rightarrow> (string \<times> stop) list" where
  "create_stops rs =
     foldl (\<lambda>m r. foldl (\<lambda>m n. dict_set n (Stop n) m) m (stops r)) [] (map snd rs)"

text \<open>Lines 179 to 183: one generator per arrival rate whose stop is on some route.\<close>

fun find_route :: "string \<Rightarrow> route list \<Rightarrow> route option" where
  "find_route n [] = None"
| "find_route n (r # rs) = (if n \<in> set (stops r) then Some r else find_route n rs)"

definition start_generator :: "route list \<Rightarrow> sim \<Rightarrow> string \<times> rat \<Rightarrow> sim" where
  "start_generator rs s e =
     (case find_route (fst e) rs of
        None \<Rightarrow> s
      | Some r \<Rightarrow>
          process (GenP \<lparr>gen_stop = fst e, rate = snd e, route_stops = stops r, pid = 0,
                         gpc = GStart\<rparr>) s)"

text \<open>\<^verbatim>\<open>Bus.__init__\<close>, lines 70 to 83.\<close>

definition Bus :: "string \<Rightarrow> string \<Rightarrow> string list \<Rightarrow> route \<Rightarrow> rat \<Rightarrow> sim \<Rightarrow> sim" where
  "Bus bid rname sts rinfo start s =
     process
       (BusP \<lparr>bus_id = bid, route_name = rname, bus_stops = sts, route_info = rinfo,
              capacity = BUS_CAPACITY (cfg s), onboard = [], current_index = 0,
              active_minutes = 0, occupied_minutes = 0, trips_completed = 0,
              start_time = start, pc = PStart, cur_stop = [], alighted = 0, free_space = 0,
              boarded = 0, t = 0, step = 0\<rparr>)
       (s\<lparr>metrics := (metrics s)\<lparr>bus_stats :=
            dict_set bid
              \<lparr>stat_active_minutes = 0, stat_occupied_minutes = 0, stat_trips_completed = 0\<rparr>
              (bus_stats (metrics s))\<rparr>\<rparr>)"

text \<open>Lines 186 to 189.\<close>

definition start_buses :: "sim \<Rightarrow> string \<times> route \<Rightarrow> sim" where
  "start_buses s e =
     foldl (\<lambda>s i. Bus (fst e @ ''-Bus-'' @ str_nat (i + 1)) (fst e) (stops (snd e)) (snd e)
                     (of_nat i * headway (snd e) / of_nat (num_buses (snd e))) s)
       s [0 ..< num_buses (snd e)]"

definition simulation_setup :: "config \<Rightarrow> sim" where
  "simulation_setup c =
     (let s0 = \<lparr>cfg = c, now = 0, next_eid = 0, queue = [], procs = [],
                stops_map = create_stops (ROUTES c), pax = [], metrics = empty_metrics\<rparr>;
          s1 = foldl (start_generator (map snd (ROUTES c))) s0 (ARRIVAL_RATES c);
          s2 = foldl start_buses s1 (ROUTES c)
      in process MonP s2)"

text \<open>Resuming process \<open>p\<close>, and processing an event.\<close>

definition resume :: "draw \<Rightarrow> nat \<Rightarrow> sim \<Rightarrow> error + sim" where
  "resume d p s =
     (if p < length (procs s) then
        (case procs s ! p of
           GenP g \<Rightarrow> passenger_generator d p g s
         | BusP b \<Rightarrow> bus_resume (gauss d) p b s
         | MonP \<Rightarrow> monitor p s)
      else Inl Dangling)"

definition dispatch :: "draw \<Rightarrow> target \<Rightarrow> sim \<Rightarrow> error + sim" where
  "dispatch d tg s = (case tg of Resume p \<Rightarrow> resume d p s | PutDone n \<Rightarrow> trigger_get n s)"

text \<open>
  \<^verbatim>\<open>env.run(until=SIM_TIME)\<close> processes the earliest event, by time, priority and
  creation order, as long as one lies before the horizon; the event that ends the run is
  urgent and so comes before any other event at the horizon. A step with nothing left to
  process leaves the state as it is.
\<close>

definition sim_step :: "draw \<Rightarrow> sim \<Rightarrow> error + sim" where
  "sim_step d s =
     (case pop_event (queue s) of
        None \<Rightarrow> Inr s
      | Some (e, q) \<Rightarrow>
          if SIM_TIME (cfg s) \<le> ev_time e then Inr s
          else dispatch d (ev_target e) (s\<lparr>now := ev_time e, queue := q\<rparr>))"

fun sim_run :: "draw list \<Rightarrow> sim \<Rightarrow> error + sim" where
  "sim_run [] s = Inr s"
| "sim_run (d # ds) s = (case sim_step d s of Inl e \<Rightarrow> Inl e | Inr s' \<Rightarrow> sim_run ds s')"

text \<open>
  \<^verbatim>\<open>run_simulation\<close> up to line 193, for the draws \<open>ds\<close>, one per scheduler step. The
  horizon must lie after time 0, or \<^verbatim>\<open>env.run\<close> raises.
\<close>

definition run_simulation :: "draw list \<Rightarrow> config \<Rightarrow> error + sim" where
  "run_simulation ds c = (if SIM_TIME c \<le> 0 then Inl ValueError else sim_run ds (simulation_setup c))"

section \<open>A worked run\<close>

text \<open>
  One route with the stops X and Y, one bus with two seats, one generator at X. Three
  passengers arrive at X while the bus makes its first lap; \<open>ex_state\<close> is the state
  after the first 19 scheduler steps, when the bus has left X again.
\<close>

definition ex_config :: config where
  "ex_config =
     \<lparr>ROUTES = [(''R'', \<lparr>stops = [''X'', ''Y''], headway = 10, num_buses = 1,
                          travel_mean = 2, travel_sd = 1\<rparr>)],
      ARRIVAL_RATES = [(''X'', 1)], BUS_CAPACITY = 2, BOARDING_TIME = 1 / 20,
      ALIGHTING_TIME = 1 / 30, MIN_DWELL = 1 / 10, SIM_TIME = 20\<rparr>"

definition ex_draw :: "rat \<Rightarrow> draw" where
  "ex_draw x = \<lparr>expo = x, gauss = 1 / 2, pick = 0\<rparr>"

definition ex_draws :: "draw list" where
  "ex_draws = replicate 11 (ex_draw (3 / 10)) @ [ex_draw 100] @ replicate 7 (ex_draw (3 / 10))"

definition ex_bus :: bus where
  "ex_bus =
     \<lparr>bus_id = ''R-Bus-1'', route_name = ''R'', bus_stops = [''X'', ''Y''],
      route_info = \<lparr>stops = [''X'', ''Y''], headway = 10, num_buses = 1,
         travel_mean = 2, travel_sd = 1\<rparr>,
      capacity = 2, onboard = [0, 1], current_index = 0,
      active_minutes = 3 / 2, occupied_minutes = 1, trips_completed = 1,
      start_time = 0, pc = PTravel, cur_stop = ''X'', alighted = 0,
      free_space = 0, boarded = 2, t = 1 / 2, step = 1 / 2\<rparr>"

definition ex_gen :: gen where
  "ex_gen = \<lparr>gen_stop = ''X'', rate = 1, route_stops = [''X'', ''Y''], pid = 3, gpc = GWait\<rparr>"

definition ex_state :: sim where
  "ex_state =
    \<lparr>cfg = ex_config, now = 13 / 10, next_eid = 22,
     queue =
      [\<lparr>ev_time = 1009 / 10, ev_prio = 1, ev_id = 15, ev_target = Resume 0\<rparr>,
       \<lparr>ev_time = 2, ev_prio = 1, ev_id = 16, ev_target = Resume 2\<rparr>,
       \<lparr>ev_time = 9 / 5, ev_prio = 1, ev_id = 21, ev_target = Resume 1\<rparr>],
     procs =
      [GenP ex_gen,
       BusP ex_bus,
       MonP],
     stops_map =
      [(''X'', \<lparr>stop_name = ''X'', items = [2], get_queue = []\<rparr>),
       (''Y'', \<lparr>stop_name = ''Y'', items = [], get_queue = []\<rparr>)],
     pax =
      [\<lparr>p_id = ''X-1'', arrival_time = 3 / 10, origin = ''X'',
         destination = ''Y'', board_time = Some (6 / 5), alight_time = None\<rparr>,
       \<lparr>p_id = ''X-2'', arrival_time = 3 / 5, origin = ''X'',
         destination = ''Y'', board_time = Some (5 / 4), alight_time = None\<rparr>,
       \<lparr>p_id = ''X-3'', arrival_time = 9 / 10, origin = ''X'',
         destination = ''Y'', board_time = None, alight_time = None\<rparr>],
     metrics =
      \<lparr>waiting_times = [9 / 10, 13 / 20],
       passenger_records =
        [\<lparr>rec_id = ''X-1'', rec_origin = ''X'', rec_destination = ''Y'',
            rec_arrival = 3 / 10, rec_board = Some (6 / 5),
            rec_alight = None, rec_route = ''R'', rec_bus = ''R-Bus-1''\<rparr>,
         \<lparr>rec_id = ''X-2'', rec_origin = ''X'', rec_destination = ''Y'',
            rec_arrival = 3 / 5, rec_board = Some (5 / 4),
            rec_alight = None, rec_route = ''R'', rec_bus = ''R-Bus-1''\<rparr>],
       queue_time_series = [(''X'', [(0, 0), (1, 3)]), (''Y'', [(0, 0), (1, 0)])],
       bus_stats =
        [(''R-Bus-1'', \<lparr>stat_active_minutes = 3 / 2, stat_occupied_minutes = 1,
             stat_trips_completed = 1\<rparr>)],
       served_per_stop = [(''X'', 2)]\<rparr>\<rparr>"

section \<open>Vocabulary of the proofs\<close>

definition no_getters :: "sim \<Rightarrow> bool" where
  "no_getters s \<longleftrightarrow> (\<forall>n st. map_of (stops_map s) n = Some st \<longrightarrow> get_queue st = [])"

definition stop_key :: "string \<times> stop \<Rightarrow> string \<times> string" where
  "stop_key e = (fst e, stop_name (snd e))"

text \<open>What resuming a bus leaves alone.\<close>

definition bus_frame :: "nat \<Rightarrow> sim \<Rightarrow> sim \<Rightarrow> bool" where
  "bus_frame p s s' \<longleftrightarrow>
     cfg s' = cfg s \<and> now s' = now s \<and> next_eid s' = Suc (next_eid s) \<and>
     (\<exists>dl\<ge>0. queue s' = queue s @ [\<lparr>ev_time = now s + dl, ev_prio = 1, ev_id = next_eid s,
                                       ev_target = Resume p\<rparr>]) \<and>
     (\<exists>b'. procs s' = (procs s)[p := BusP b'] \<and> pc b' \<noteq> PGet None \<and> pc b' \<noteq> PStart) \<and>
     length (pax s') = length (pax s) \<and>
     map stop_key (stops_map s') = map stop_key (stops_map s) \<and>
     no_getters s' \<and>
     queue_time_series (metrics s') = queue_time_series (metrics s)"

text \<open>What one scheduler step leaves alone, \<open>s\<close> being the state once the event is popped.\<close>

definition pending :: "nat \<Rightarrow> event list \<Rightarrow> event list" where
  "pending p q = filter (\<lambda>e. ev_target e = Resume p) q"

definition step_frame :: "target \<Rightarrow> sim \<Rightarrow> sim \<Rightarrow> bool" where
  "step_frame tg s s' \<longleftrightarrow>
     cfg s' = cfg s \<and> now s' = now s \<and>
     (\<exists>evs. queue s' = queue s @ evs \<and> (\<forall>e\<in>set evs. now s \<le> ev_time e) \<and>
        (\<forall>q. length (pending q evs) \<le> (if tg = Resume q then 1 else 0))) \<and>
     length (procs s') = length (procs s) \<and>
     (\<forall>q. tg \<noteq> Resume q \<longrightarrow> procs s' ! q = procs s ! q) \<and>
     (\<forall>q b. procs s' ! q = BusP b \<longrightarrow> pc b = PGet None \<longrightarrow> procs s ! q = BusP b) \<and>
     (\<forall>q. procs s' ! q = MonP \<longleftrightarrow> procs s ! q = MonP) \<and>
     length (pax s) \<le> length (pax s') \<and>
     map stop_key (stops_map s') = map stop_key (stops_map s) \<and>
     no_getters s'"

text \<open>The state in which the target of the popped event \<open>e\<close> runs.\<close>

definition popped :: "event \<Rightarrow> sim \<Rightarrow> sim" where
  "popped e s = s\<lparr>now := ev_time e, queue := remove1 e (queue s)\<rparr>"

definition base_inv :: "sim \<Rightarrow> bool" where
  "base_inv s \<longleftrightarrow>
     no_getters s \<and>
     (\<forall>e\<in>set (queue s). now s \<le> ev_time e) \<and>
     (\<forall>p. length (pending p (queue s)) \<le> 1) \<and>
     (\<forall>p b. p < length (procs s) \<longrightarrow> procs s ! p = BusP b \<longrightarrow> pc b \<noteq> PGet None)"

fun fresh :: "config \<Rightarrow> proc \<Rightarrow> bool" where
  "fresh c (BusP b) \<longleftrightarrow> pc b = PStart \<and> onboard b = [] \<and> capacity b = BUS_CAPACITY c"
| "fresh c (GenP g) \<longleftrightarrow> gpc g = GStart"
| "fresh c MonP \<longleftrightarrow> True"

definition start_event :: "nat \<Rightarrow> event" where
  "start_event p = \<lparr>ev_time = 0, ev_prio = 0, ev_id = p, ev_target = Resume p\<rparr>"

definition init_ok :: "config \<Rightarrow> sim \<Rightarrow> bool" where
  "init_ok c s \<longleftrightarrow>
     cfg s = c \<and> now s = 0 \<and> pax s = [] \<and> next_eid s = length (procs s) \<and>
     queue s = map start_event [0 ..< length (procs s)] \<and>
     (\<forall>v\<in>set (procs s). fresh c v) \<and>
     (\<forall>n st. map_of (stops_map s) n = Some st \<longrightarrow> st = Stop n) \<and>
     queue_time_series (metrics s) = []"

definition new_stops :: "(string \<times> stop) list \<Rightarrow> bool" where
  "new_stops m \<longleftrightarrow> (\<forall>n st. map_of m n = Some st \<longrightarrow> st = Stop n)"

definition alighting :: "bus \<Rightarrow> sim \<Rightarrow> nat list" where
  "alighting b s =
     filter (\<lambda>a. destination (pax s ! a) = bus_stops b ! current_index b) (onboard b)"

definition alight_pax :: "rat \<Rightarrow> passenger list \<Rightarrow> nat list \<Rightarrow> passenger list" where
  "alight_pax tm h xs = foldl (\<lambda>h a. h[a := (h ! a)\<lparr>alight_time := Some tm\<rparr>]) h xs"

definition alight_bus :: "bus \<Rightarrow> sim \<Rightarrow> bus" where
  "alight_bus b s =
     b\<lparr>cur_stop := bus_stops b ! current_index b,
       onboard := foldl (\<lambda>xs a. remove1 a xs) (onboard b) (alighting b s),
       alighted := length (alighting b s)\<rparr>"

definition alight_sim :: "bus \<Rightarrow> sim \<Rightarrow> sim" where
  "alight_sim b s = s\<lparr>pax := alight_pax (now s) (pax s) (alighting b s)\<rparr>"

definition travel_bus :: "bus \<Rightarrow> bus" where
  "travel_bus b =
     b\<lparr>step := min 1 (t b), active_minutes := active_minutes b + min 1 (t b),
       occupied_minutes := occupied_minutes b + of_nat (length (onboard b)) * min 1 (t b)\<rparr>"

definition next_index :: "bus \<Rightarrow> nat" where
  "next_index b = (current_index b + 1) mod length (bus_stops b)"

definition seats_ok :: "bus \<Rightarrow> bool" where
  "seats_ok b \<longleftrightarrow>
     int (length (onboard b)) \<le> capacity b \<and>
     (\<forall>x. pc b = PGet x \<longrightarrow>
        0 < free_space b \<and> free_space b = capacity b - int (length (onboard b))) \<and>
     (pc b = PBoarded \<longrightarrow> free_space b = capacity b - int (length (onboard b)))"

definition cap_inv :: "sim \<Rightarrow> bool" where
  "cap_inv s \<longleftrightarrow>
     (\<forall>p b. p < length (procs s) \<longrightarrow> procs s ! p = BusP b \<longrightarrow>
        seats_ok b \<and> capacity b = BUS_CAPACITY (cfg s))"

text \<open>The passengers a process carries, and the one a fulfilled get is handing to it.\<close>

fun riders :: "proc \<Rightarrow> nat list" where
  "riders (BusP b) = onboard b"
| "riders _ = []"

fun holding :: "proc \<Rightarrow> nat option" where
  "holding (BusP b) = (case pc b of PGet x \<Rightarrow> x | _ \<Rightarrow> None)"
| "holding _ = None"

definition queued_ok :: "passenger list \<Rightarrow> (string \<rightharpoonup> stop) \<Rightarrow> bool" where
  "queued_ok H S \<longleftrightarrow>
     (\<forall>n st. S n = Some st \<longrightarrow>
        sorted_wrt (<) (items st) \<and>
        (\<forall>a\<in>set (items st). a < length H \<and> origin (H ! a) = n \<and> board_time (H ! a) = None))"

definition fifo_ok :: "passenger list \<Rightarrow> (string \<rightharpoonup> stop) \<Rightarrow> bool" where
  "fifo_ok H S \<longleftrightarrow>
     (\<forall>n st a. S n = Some st \<longrightarrow> a < length H \<longrightarrow> origin (H ! a) = n \<longrightarrow>
        a \<notin> set (items st) \<longrightarrow> (\<forall>q\<in>set (items st). a < q))"

definition held_ok :: "passenger list \<Rightarrow> (string \<rightharpoonup> stop) \<Rightarrow> nat option list \<Rightarrow> bool" where
  "held_ok H S Hd \<longleftrightarrow>
     (\<forall>p a. p < length Hd \<longrightarrow> Hd ! p = Some a \<longrightarrow>
        a < length H \<and> board_time (H ! a) = None \<and>
        (\<forall>n st. S n = Some st \<longrightarrow> a \<notin> set (items st))) \<and>
     (\<forall>p q a. p < length Hd \<longrightarrow> q < length Hd \<longrightarrow> Hd ! p = Some a \<longrightarrow> Hd ! q = Some a \<longrightarrow>
        p = q)"

definition riding_ok :: "passenger list \<Rightarrow> nat list list \<Rightarrow> bool" where
  "riding_ok H R \<longleftrightarrow>
     (\<forall>p a. p < length R \<longrightarrow> a \<in> set (R ! p) \<longrightarrow> a < length H \<and> board_time (H ! a) \<noteq> None)"

definition times_ok :: "rat \<Rightarrow> passenger list \<Rightarrow> bool" where
  "times_ok tm H \<longleftrightarrow>
     (\<forall>a<length H.
        arrival_time (H ! a) \<le> tm \<and>
        (\<forall>tb. board_time (H ! a) = Some tb \<longrightarrow> arrival_time (H ! a) \<le> tb \<and> tb \<le> tm) \<and>
        (\<forall>ta. alight_time (H ! a) = Some ta \<longrightarrow>
           (\<exists>tb. board_time (H ! a) = Some tb \<and> tb \<le> ta \<and> ta \<le> tm)))"

definition ordered_ok :: "passenger list \<Rightarrow> bool" where
  "ordered_ok H \<longleftrightarrow>
     (\<forall>a b. a < b \<longrightarrow> b < length H \<longrightarrow> arrival_time (H ! a) \<le> arrival_time (H ! b))"

definition heap_ok ::
  "rat \<Rightarrow> passenger list \<Rightarrow> (string \<rightharpoonup> stop) \<Rightarrow> nat list list \<Rightarrow> nat option list \<Rightarrow> bool" where
  "heap_ok tm H S R Hd \<longleftrightarrow>
     queued_ok H S \<and> fifo_ok H S \<and> held_ok H S Hd \<and> riding_ok H R \<and> times_ok tm H \<and>
     ordered_ok H"

definition heap_inv :: "sim \<Rightarrow> bool" where
  "heap_inv s \<longleftrightarrow>
     heap_ok (now s) (pax s) (map_of (stops_map s)) (map riders (procs s)) (map holding (procs s))"

definition same_boarding :: "passenger list \<Rightarrow> passenger list \<Rightarrow> bool" where
  "same_boarding H H' \<longleftrightarrow>
     length H' = length H \<and>
     (\<forall>a<length H. origin (H' ! a) = origin (H ! a) \<and> board_time (H' ! a) = board_time (H ! a) \<and>
        arrival_time (H' ! a) = arrival_time (H ! a))"

definition heap_run :: "nat \<Rightarrow> bus \<Rightarrow> sim \<Rightarrow> bool" where
  "heap_run p b s \<longleftrightarrow>
     p < length (procs s) \<and>
     heap_ok (now s) (pax s) (map_of (stops_map s)) ((map riders (procs s))[p := onboard b])
       ((map holding (procs s))[p := None])"

definition series :: "sim \<Rightarrow> string \<Rightarrow> (rat \<times> nat) list option" where
  "series s n = map_of (queue_time_series (metrics s)) n"

definition stop_names :: "sim \<Rightarrow> string list" where
  "stop_names s = map (\<lambda>e. stop_name (snd e)) (stops_map s)"

text \<open>\<open>k\<close> is the number of turns the monitor has made.\<close>

definition sampled :: "nat \<Rightarrow> sim \<Rightarrow> bool" where
  "sampled k s \<longleftrightarrow>
     (\<forall>n xs. series s n = Some xs \<longrightarrow> map fst xs = map of_nat [0 ..< k]) \<and>
     (0 < k \<longrightarrow> (\<forall>n\<in>set (stop_names s). series s n \<noteq> None)) \<and>
     (\<forall>n. series s n \<noteq> None \<longrightarrow> n \<in> set (stop_names s)) \<and>
     (\<forall>e\<in>set (queue s). \<forall>p. ev_target e = Resume p \<longrightarrow> p < length (procs s) \<longrightarrow>
        procs s ! p = MonP \<longrightarrow> ev_time e = of_nat k)"

definition mon_inv :: "sim \<Rightarrow> bool" where
  "mon_inv s \<longleftrightarrow>
     distinct (stop_names s) \<and>
     (\<forall>p q. p < length (procs s) \<longrightarrow> q < length (procs s) \<longrightarrow> procs s ! p = MonP \<longrightarrow>
        procs s ! q = MonP \<longrightarrow> p = q) \<and>
     (\<exists>k. sampled k s)"

definition before_monitor :: "config \<Rightarrow> sim \<Rightarrow> bool" where
  "before_monitor c s \<longleftrightarrow> MonP \<notin> set (procs s) \<and> stops_map s = create_stops (ROUTES c)"

definition keyed_stops :: "(string \<times> stop) list \<Rightarrow> bool" where
  "keyed_stops m \<longleftrightarrow> distinct (map fst m) \<and> (\<forall>e\<in>set m. stop_name (snd e) = fst e)"




text \<open>
  The last \<open>boarded b\<close> passengers of \<open>onboard b\<close> are those of the current burst;
  \<open>burst_times BT H b t0\<close> says that the \<open>i\<close>-th of them (from 0) boarded at
  \<open>t0 + i * BT\<close>.
\<close>

definition burst_times :: "rat \<Rightarrow> passenger list \<Rightarrow> bus \<Rightarrow> rat \<Rightarrow> bool" where
  "burst_times BT H b t0 \<longleftrightarrow>
     boarded b \<le> length (onboard b) \<and>
     (\<forall>i<boarded b.
        board_time (H ! (onboard b ! (length (onboard b) - boarded b + i)))
          = Some (t0 + of_nat i * BT))"






text \<open>
  \<open>sample_of c ds n i x\<close>: the pair \<open>x\<close> is the clock value \<open>i\<close> together with the length
  of the queue of stop \<open>n\<close>, as they are in a state that the run with the draws \<open>ds\<close>
  goes through.
\<close>

definition sample_of :: "config \<Rightarrow> draw list \<Rightarrow> string \<Rightarrow> nat \<Rightarrow> rat \<times> nat \<Rightarrow> bool" where
  "sample_of c ds n i x \<longleftrightarrow>
     (\<exists>m\<le>length ds.
        case run_simulation (take m ds) c of
          Inl e \<Rightarrow> False
        | Inr si \<Rightarrow> now si = of_nat i \<and>
            (\<exists>e\<in>set (stops_map si). stop_name (snd e) = n \<and>
               x = (of_nat i, length (items (snd e)))))"

definition has_monitor :: "sim \<Rightarrow> bool" where
  "has_monitor s \<longleftrightarrow>
     (\<exists>p e. p < length (procs s) \<and> procs s ! p = MonP \<and> e \<in> set (queue s) \<and>
        ev_target e = Resume p)"

definition sampling :: "config \<Rightarrow> draw list \<Rightarrow> sim \<Rightarrow> nat \<Rightarrow> bool" where
  "sampling c ds s k \<longleftrightarrow>
     sampled k s \<and>
     (\<forall>n xs i. series s n = Some xs \<longrightarrow> i < length xs \<longrightarrow> sample_of c ds n i (xs ! i)) \<and>
     has_monitor s \<and>
     (0 < k \<longrightarrow> of_nat (k - 1) \<le> now s)"

text \<open>
  A stop visit of the bus \<open>p\<close>, seen from outside the bus: what is measured is which
  passengers are in its \<open>onboard\<close> list before and after a scheduler step.
\<close>

definition riding :: "nat \<Rightarrow> sim \<Rightarrow> nat list" where
  "riding p s = riders (procs s ! p)"

text \<open>The number of passengers that are on board before the step and not after it.\<close>

definition alighted_in :: "nat \<Rightarrow> sim \<Rightarrow> sim \<Rightarrow> nat" where
  "alighted_in p s s' = length (filter (\<lambda>x. x \<notin> set (riding p s')) (riding p s))"

text \<open>The number of passengers that are on board after the step and not before it.\<close>

definition boarded_in :: "nat \<Rightarrow> sim \<Rightarrow> sim \<Rightarrow> nat" where
  "boarded_in p s s' = length (filter (\<lambda>x. x \<notin> set (riding p s)) (riding p s'))"

text \<open>
  The bus is about to arrive at a stop: it was started, or it is on the last step of a
  travel leg; its next resumption runs line 88.
\<close>

definition arriving :: "nat \<Rightarrow> sim \<Rightarrow> bool" where
  "arriving p s \<longleftrightarrow>
     p < length (procs s) \<and>
     (case procs s ! p of
        BusP b \<Rightarrow> pc b = PStarted \<or> (pc b = PTravel \<and> t b \<le> step b)
      | _ \<Rightarrow> False)"

text \<open>The bus is suspended within a visit: after alighting, or in the boarding loop.\<close>

definition mid_visit :: "nat \<Rightarrow> sim \<Rightarrow> bool" where
  "mid_visit p s \<longleftrightarrow>
     p < length (procs s) \<and>
     (case procs s ! p of
        BusP b \<Rightarrow> (case pc b of PAlighted \<Rightarrow> True | PGet x \<Rightarrow> True | PBoarded \<Rightarrow> True
                    | _ \<Rightarrow> False)
      | _ \<Rightarrow> False)"

text \<open>The bus is suspended in the minimum dwell: it will be resumed \<open>MIN_DWELL\<close> from now.\<close>

definition dwelling :: "nat \<Rightarrow> sim \<Rightarrow> bool" where
  "dwelling p s \<longleftrightarrow>
     (case procs s ! p of
        BusP b \<Rightarrow> pc b = PDwelled \<and>
          (\<exists>e\<in>set (queue s). ev_target e = Resume p \<and> ev_time e = now s + MIN_DWELL (cfg s))
      | _ \<Rightarrow> False)"

text \<open>The bus is suspended in the first step of its travel leg, of \<open>min(1, t)\<close> from now.\<close>

definition travelling :: "nat \<Rightarrow> sim \<Rightarrow> bool" where
  "travelling p s \<longleftrightarrow>
     (case procs s ! p of
        BusP b \<Rightarrow> pc b = PTravel \<and>
          (\<exists>e\<in>set (queue s). ev_target e = Resume p \<and> ev_time e = now s + min 1 (t b))
      | _ \<Rightarrow> False)"

text \<open>
  \<open>visit c p na nb s\<close>: in a run of the configuration \<open>c\<close> the bus \<open>p\<close> has arrived at a
  stop, and since then, up to the state \<open>s\<close>, \<open>na\<close> passengers have left it and \<open>nb\<close> have
  joined it. The visit begins with the step that resumes the arriving bus and goes on as
  long as the bus is suspended within the visit.
\<close>

inductive visit :: "config \<Rightarrow> nat \<Rightarrow> nat \<Rightarrow> nat \<Rightarrow> sim \<Rightarrow> bool" for c :: config and p :: nat where
  arrive: "run_simulation ds c = Inr s \<Longrightarrow> arriving p s \<Longrightarrow> sim_step d s = Inr s' \<Longrightarrow>
     procs s' ! p \<noteq> procs s ! p \<Longrightarrow>
     visit c p (alighted_in p s s') (boarded_in p s s') s'"
| stay: "visit c p na nb s \<Longrightarrow> mid_visit p s \<Longrightarrow> sim_step d s = Inr s' \<Longrightarrow>
     visit c p (na + alighted_in p s s') (nb + boarded_in p s s') s'"

text \<open>What the counters of a suspended bus say, if \<open>na\<close> have alighted and \<open>nb\<close> boarded.\<close>

definition tally :: "nat \<Rightarrow> nat \<Rightarrow> bus \<Rightarrow> bool" where
  "tally na nb b \<longleftrightarrow>
     (case pc b of
        PAlighted \<Rightarrow> alighted b = na \<and> nb = 0
      | PGet x \<Rightarrow> alighted b = na \<and> boarded b = nb
      | PBoarded \<Rightarrow> alighted b = na \<and> boarded b = nb
      | PDwelled \<Rightarrow> na = 0 \<and> nb = 0
      | PTravel \<Rightarrow> 0 < na \<or> 0 < nb
      | _ \<Rightarrow> False)"

definition visit_post :: "nat \<Rightarrow> nat \<Rightarrow> nat \<Rightarrow> nat list \<Rightarrow> sim \<Rightarrow> bool" where
  "visit_post p na nb on0 s' \<longleftrightarrow>
     (\<exists>b'. procs s' ! p = BusP b' \<and>
        tally (na + length (filter (\<lambda>x. x \<notin> set (onboard b')) on0))
              (nb + length (filter (\<lambda>x. x \<notin> set on0) (onboard b'))) b' \<and>
        (pc b' = PDwelled \<longrightarrow>
           (\<exists>e\<in>set (queue s'). ev_target e = Resume p \<and>
              ev_time e = now s' + MIN_DWELL (cfg s'))) \<and>
        (pc b' = PTravel \<longrightarrow>
           (\<exists>e\<in>set (queue s'). ev_target e = Resume p \<and> ev_time e = now s' + min 1 (t b'))))"

definition visiting :: "nat \<Rightarrow> nat \<Rightarrow> nat \<Rightarrow> sim \<Rightarrow> bool" where
  "visiting p na nb s \<longleftrightarrow>
     base_inv s \<and> heap_inv s \<and> p < length (procs s) \<and>
     (\<exists>b. procs s ! p = BusP b \<and> tally na nb b \<and>
        (pc b = PDwelled \<longrightarrow>
           (\<exists>e\<in>set (queue s). ev_target e = Resume p \<and>
              ev_time e = now s + MIN_DWELL (cfg s))) \<and>
        (pc b = PTravel \<longrightarrow>
           (\<exists>e\<in>set (queue s). ev_target e = Resume p \<and> ev_time e = now s + min 1 (t b))))"

section \<open>Basic facts\<close>

lemma ex_run: "run_simulation ex_draws ex_config = Inr ex_state"
  by code_simp

lemma schedule_fields [simp]:
  "cfg (schedule dl pr tg s) = cfg s"
  "now (schedule dl pr tg s) = now s"
  "next_eid (schedule dl pr tg s) = Suc (next_eid s)"
  "queue (schedule dl pr tg s) =
     queue s @ [\<lparr>ev_time = now s + dl, ev_prio = pr, ev_id = next_eid s, ev_target = tg\<rparr>]"
  "procs (schedule dl pr tg s) = procs s"
  "stops_map (schedule dl pr tg s) = stops_map s"
  "pax (schedule dl pr tg s) = pax s"
  "metrics (schedule dl pr tg s) = metrics s"
  by (simp_all add: schedule_def)

lemma set_proc_fields [simp]:
  "cfg (set_proc p v s) = cfg s"
  "now (set_proc p v s) = now s"
  "next_eid (set_proc p v s) = next_eid s"
  "queue (set_proc p v s) = queue s"
  "procs (set_proc p v s) = (procs s)[p := v]"
  "stops_map (set_proc p v s) = stops_map s"
  "pax (set_proc p v s) = pax s"
  "metrics (set_proc p v s) = metrics s"
  by (simp_all add: set_proc_def)

lemma suspend_fields [simp]:
  "cfg (suspend p b k s) = cfg s"
  "now (suspend p b k s) = now s"
  "next_eid (suspend p b k s) = next_eid s"
  "queue (suspend p b k s) = queue s"
  "procs (suspend p b k s) = (procs s)[p := BusP (b\<lparr>pc := k\<rparr>)]"
  "stops_map (suspend p b k s) = stops_map s"
  "pax (suspend p b k s) = pax s"
  "metrics (suspend p b k s) = metrics s"
  by (simp_all add: suspend_def)

lemma set_stop_fields [simp]:
  "cfg (set_stop n st s) = cfg s"
  "now (set_stop n st s) = now s"
  "next_eid (set_stop n st s) = next_eid s"
  "queue (set_stop n st s) = queue s"
  "procs (set_stop n st s) = procs s"
  "stops_map (set_stop n st s) = dict_set n st (stops_map s)"
  "pax (set_stop n st s) = pax s"
  "metrics (set_stop n st s) = metrics s"
  by (simp_all add: set_stop_def)

lemma timeout_Inr [simp]:
  "timeout dl p s = Inr s' \<longleftrightarrow> 0 \<le> dl \<and> s' = schedule dl 1 (Resume p) s"
  by (auto simp: timeout_def)

lemma timeout_Inl [simp]: "timeout dl p s = Inl e \<longleftrightarrow> dl < 0 \<and> e = ValueError"
  by (auto simp: timeout_def)

lemma map_of_dict_set [simp]: "map_of (dict_set k v m) = (map_of m)(k \<mapsto> v)"
  by (induction m) (auto simp: fun_eq_iff)

lemma travel_time_half: "1 / 2 \<le> travel_time g" "0 < travel_time g"
  by (simp_all add: travel_time_def max_def)

lemma index_of_Some:
  "index_of xs x = Some i \<Longrightarrow> i < length xs \<and> xs ! i = x \<and> (\<forall>j<i. xs ! j \<noteq> x)"
proof (induction xs arbitrary: i)
  case Nil
  then show ?case by simp
next
  case (Cons y ys)
  show ?case
  proof (cases "y = x")
    case True
    with Cons.prems show ?thesis by simp
  next
    case False
    with Cons.prems obtain k where k: "index_of ys x = Some k" "i = Suc k" by auto
    from Cons.IH[OF k(1)] False k(2) show ?thesis
      by (auto simp: nth_Cons split: nat.splits)
  qed
qed

lemma add_passenger_pax: "add_passenger n a s = Inr s' \<Longrightarrow> pax s' = pax s \<and> now s' = now s"
  by (auto simp: add_passenger_def split: option.splits)

lemma gen_wait_pax: "gen_wait d p g s = Inr s' \<Longrightarrow> pax s' = pax s"
  by (auto simp: gen_wait_def split: if_splits sum.splits)

section \<open>Travel time and destination\<close>

text \<open>
  C5. For every travel leg the duration used is \<open>max 0.5 draw\<close>, so at least half a
  minute whatever the Gaussian draw \<open>g\<close> is, negative draws included: running the travel
  section (line 125 on) leaves the bus suspended in the travel loop with
  \<open>t = max (1/2) g\<close>, \<open>1/2 \<le> t\<close>, and a first travel step of \<open>min 1 t\<close>.
\<close>

theorem travel_time_floor:
  assumes "bus_exec LTravel g p b s = Inr s'" and "p < length (procs s)"
  shows "\<exists>b'. procs s' ! p = BusP b' \<and> pc b' = PTravel \<and> t b' = max (1 / 2) g \<and>
           1 / 2 \<le> t b' \<and> step b' = min 1 (t b') \<and>
           queue s' = queue s @ [\<lparr>ev_time = now s + step b', ev_prio = 1,
                                  ev_id = next_eid s, ev_target = Resume p\<rparr>]"
  using assms travel_time_half[of g]
  by (auto simp: bus_exec.simps Let_def travel_time_def split: sum.splits if_splits)

theorem travel_time_floor_witness:
  "\<exists>s' b'. bus_exec LTravel (- 3) 1 ex_bus ex_state = Inr s' \<and> procs s' ! 1 = BusP b' \<and>
     t b' = 1 / 2 \<and> pc b' = PTravel"
proof -
  obtain s' where r: "bus_exec LTravel (- 3) 1 ex_bus ex_state = Inr s'"
    by (simp add: bus_exec.simps travel_time_def stat_travel_def timeout_def Let_def
          ex_bus_def ex_state_def)
  have p: "1 < length (procs ex_state)"
    by (simp add: ex_state_def)
  from travel_time_floor[OF r p] r show ?thesis
    by auto
qed

text \<open>
  C7. A passenger constructed by the generator of a stop has that stop as origin. With
  \<open>idx\<close> the (first) index of the stop on the route's stop sequence: if stops strictly
  downstream exist (\<open>idx + 1 < stop_count\<close>) the destination is the element of exactly
  those downstream stops at the randomly drawn index, so each downstream position is chosen
  by exactly one value of the uniform draw; otherwise the destination is the origin.
\<close>

theorem generator_destination:
  assumes "gen_arrive d p g s = Inr s'"
  shows "\<exists>idx psg. index_of (route_stops g) (gen_stop g) = Some idx \<and>
           idx < length (route_stops g) \<and> route_stops g ! idx = gen_stop g \<and>
           (\<forall>j<idx. route_stops g ! j \<noteq> gen_stop g) \<and>
           pax s' = pax s @ [psg] \<and> origin psg = gen_stop g \<and> arrival_time psg = now s \<and>
           (if idx + 1 < length (route_stops g)
            then destination psg \<in> set (drop (idx + 1) (route_stops g)) \<and>
                 destination psg =
                   drop (idx + 1) (route_stops g) ! (pick d mod (length (route_stops g) - (idx + 1)))
            else destination psg = origin psg)"
proof -
  from assms obtain idx where idx: "index_of (route_stops g) (gen_stop g) = Some idx"
    by (auto simp: gen_arrive_def choose_destination_def Let_def split: option.splits sum.splits)
  let ?dest = "if idx + 1 < length (route_stops g)
               then drop (idx + 1) (route_stops g) ! (pick d mod length (drop (idx + 1) (route_stops g)))
               else gen_stop g"
  let ?psg = "Passenger (gen_stop g @ ''-'' @ str_nat (pid g + 1)) (now s) (gen_stop g) ?dest"
  from assms idx have "pax s' = pax s @ [?psg]"
    by (auto simp: gen_arrive_def choose_destination_def Let_def
             dest!: add_passenger_pax gen_wait_pax split: sum.splits)
  moreover have "idx + 1 < length (route_stops g) \<Longrightarrow>
      drop (idx + 1) (route_stops g) ! (pick d mod length (drop (idx + 1) (route_stops g)))
        \<in> set (drop (idx + 1) (route_stops g))"
    by (rule nth_mem) simp
  ultimately show ?thesis
    using idx index_of_Some[OF idx] by (auto simp: Passenger_def)
qed

theorem generator_destination_witness:
  "\<exists>s' psg. gen_arrive (ex_draw 1) 0 ex_gen ex_state = Inr s' \<and> pax s' = pax ex_state @ [psg] \<and>
     origin psg = ''X'' \<and> destination psg = ''Y''"
proof -
  obtain s' where r: "gen_arrive (ex_draw 1) 0 ex_gen ex_state = Inr s'"
    by (simp add: gen_arrive_def choose_destination_def add_passenger_def gen_wait_def timeout_def
          ex_gen_def ex_state_def ex_draw_def Let_def)
  from generator_destination[OF r] r show ?thesis
    by (auto simp: ex_gen_def)
qed

lemma no_getters_upd [simp]:
  "no_getters (s\<lparr>metrics := m\<rparr>) = no_getters s"
  "no_getters (s\<lparr>pax := h\<rparr>) = no_getters s"
  by (simp_all add: no_getters_def)

lemma trigger_get_idle: "no_getters s \<Longrightarrow> map_of (stops_map s) n = Some st \<Longrightarrow> trigger_get n s = Inr s"
  by (auto simp: trigger_get_def no_getters_def)

lemma trigger_get_no_getters: "no_getters s \<Longrightarrow> trigger_get n s = Inr s' \<Longrightarrow> s' = s"
  by (auto simp: trigger_get_def no_getters_def split: option.splits)

lemma dict_set_twice [simp]: "dict_set k v (dict_set k w m) = dict_set k v m"
  by (induction m) auto

lemma get_passenger_ready:
  assumes "no_getters s" "map_of (stops_map s) n = Some st" "items st = a # as"
    "p < length (procs s)"
  shows "get_passenger n p (suspend p b (PGet None) s) =
         Inr (schedule 0 1 (Resume p) (suspend p b (PGet (Some a)) (set_stop n (st\<lparr>items := as\<rparr>) s)))"
proof -
  from assms(1,2) have gq: "get_queue st = []"
    by (auto simp: no_getters_def)
  then have st: "st\<lparr>items := as, get_queue := []\<rparr> = st\<lparr>items := as\<rparr>"
    by (cases st) simp
  show ?thesis
    using assms(2,3,4) gq
    by (simp add: get_passenger_def trigger_get_def deliver_def suspend_def set_proc_def
          set_stop_def st)
qed

lemma keys_dict_set [simp]:
  "map_of m k = Some w \<Longrightarrow> stop_name v = stop_name w \<Longrightarrow>
     map stop_key (dict_set k v m) = map stop_key m"
  by (induction m) (auto simp: stop_key_def split: if_splits)

lemma length_fold_update [simp]:
  "length (foldl (\<lambda>h a. h[a := f h a]) h xs) = length h"
  by (induction xs arbitrary: h) auto

lemma stat_travel_Inr: "stat_travel i a c m = Inr m' \<Longrightarrow> queue_time_series m' = queue_time_series m"
  by (auto simp: stat_travel_def split: option.splits)

lemma stat_trip_Inr: "stat_trip i m = Inr m' \<Longrightarrow> queue_time_series m' = queue_time_series m"
  by (auto simp: stat_trip_def split: option.splits)

lemma bus_exec_frame:
  "bus_exec l g p b s = Inr s' \<Longrightarrow> no_getters s \<Longrightarrow> p < length (procs s) \<Longrightarrow> bus_frame p s s'"
proof (induction l g p b s rule: bus_exec.induct)
  case (1 g p b s)
  then show ?case
    by (auto simp: bus_exec.simps(1) Let_def bus_frame_def no_getters_def
        split: if_splits sum.splits)
next
  case (2 g p b s)
  then show ?case
    by (auto simp: bus_exec.simps(2))
next
  case (3 g p b s)
  show ?case
  proof (cases "map_of (stops_map s) (cur_stop b)")
    case None
    with 3 show ?thesis by (simp add: bus_exec.simps(3))
  next
    case (Some st)
    show ?thesis
    proof (cases "0 < free_space b \<and> 0 < length (items st)")
      case True
      then obtain a as where it: "items st = a # as"
        by (cases "items st") auto
      from 3(2) Some True get_passenger_ready[OF 3(3) Some it 3(4), of b]
      have "s' = schedule 0 1 (Resume p) (suspend p b (PGet (Some a)) (set_stop (cur_stop b) (st\<lparr>items := as\<rparr>) s))"
        by (simp add: bus_exec.simps(3))
      with 3(3) Some show ?thesis
        by (auto simp: bus_frame_def no_getters_def)
    next
      case False
      with 3 Some show ?thesis
        by (auto simp: bus_exec.simps(3))
    qed
  qed
next
  case (4 g p b s)
  then show ?case
    by (auto simp: bus_exec.simps(4) bus_frame_def no_getters_def split: if_splits sum.splits)
next
  case (5 g p b s)
  then show ?case
    by (auto simp: bus_exec.simps(5))
next
  case (6 g p b s)
  then show ?case
    by (auto simp: bus_exec.simps(6) Let_def bus_frame_def no_getters_def min_def
        dest: stat_travel_Inr split: if_splits sum.splits)
next
  case (7 g p b s)
  then show ?case
    by (auto simp: bus_exec.simps(7) Let_def bus_frame_def no_getters_def
        dest: stat_trip_Inr split: if_splits sum.splits)
qed

lemma bus_board_frame:
  "bus_board a p b s = Inr s' \<Longrightarrow> no_getters s \<Longrightarrow> bus_frame p s s'"
  by (auto simp: bus_board_def Let_def bus_frame_def no_getters_def record_boarding_def
      split: sum.splits)

lemma bus_resume_frame:
  "bus_resume g p b s = Inr s' \<Longrightarrow> no_getters s \<Longrightarrow> p < length (procs s) \<Longrightarrow> bus_frame p s s'"
  unfolding bus_resume_def
  by (auto split: bus_pc.splits option.splits sum.splits
      dest: bus_exec_frame bus_board_frame simp: bus_frame_def no_getters_def)

lemma bus_frame_step:
  "bus_frame p s s' \<Longrightarrow> p < length (procs s) \<Longrightarrow> procs s ! p = BusP b \<Longrightarrow>
     step_frame (Resume p) s s'"
  by (auto simp: bus_frame_def step_frame_def pending_def nth_list_update split: if_splits)

lemma add_passenger_Inr:
  "add_passenger n a s = Inr s' \<longleftrightarrow>
     (\<exists>st. map_of (stops_map s) n = Some st \<and>
        s' = schedule 0 1 (PutDone n) (set_stop n (st\<lparr>items := items st @ [a]\<rparr>) s))"
  by (auto simp: add_passenger_def split: option.splits)

lemma gen_wait_Inr:
  "gen_wait d p g s = Inr s' \<longleftrightarrow>
     rate g \<noteq> 0 \<and> \<not> 1 / rate g < 0 \<and> 0 \<le> expo d \<and>
     s' = set_proc p (GenP (g\<lparr>gpc := GWait\<rparr>)) (schedule (expo d) 1 (Resume p) s)"
  by (auto simp: gen_wait_def split: sum.splits)

lemma generator_frame:
  "passenger_generator d p g s = Inr s' \<Longrightarrow> no_getters s \<Longrightarrow> p < length (procs s) \<Longrightarrow>
     procs s ! p = GenP g \<Longrightarrow> step_frame (Resume p) s s'"
  by (auto simp: passenger_generator_def gen_arrive_def Let_def add_passenger_Inr gen_wait_Inr
        step_frame_def pending_def no_getters_def nth_list_update
      split: gen_pc.splits sum.splits if_splits)

lemma monitor_frame:
  "monitor p s = Inr s' \<Longrightarrow> no_getters s \<Longrightarrow> p < length (procs s) \<Longrightarrow>
     step_frame (Resume p) s s'"
  by (auto simp: monitor_def step_frame_def pending_def no_getters_def)

lemma step_frame_refl: "no_getters s \<Longrightarrow> step_frame tg s s"
  by (simp add: step_frame_def pending_def)

lemma dispatch_frame:
  assumes "dispatch d tg s = Inr s'" and "no_getters s"
  shows "step_frame tg s s'"
proof (cases tg)
  case (Resume p)
  with assms(1) have p: "p < length (procs s)"
    by (auto simp: dispatch_def resume_def split: if_splits)
  show ?thesis
  proof (cases "procs s ! p")
    case (GenP g)
    with assms Resume p show ?thesis
      by (auto simp: dispatch_def resume_def intro: generator_frame)
  next
    case (BusP b)
    with assms Resume p show ?thesis
      by (auto simp: dispatch_def resume_def intro: bus_frame_step bus_resume_frame)
  next
    case MonP
    with assms Resume p show ?thesis
      by (auto simp: dispatch_def resume_def intro: monitor_frame)
  qed
next
  case (PutDone n)
  with assms have "s' = s"
    by (auto simp: dispatch_def dest: trigger_get_no_getters)
  with assms(2) show ?thesis
    by (simp add: step_frame_refl)
qed

section \<open>Popping the earliest event\<close>

lemma min_event_mem: "min_event e es \<in> set (e # es)"
  by (induction es arbitrary: e) auto

lemma min_event_least: "x \<in> set (e # es) \<Longrightarrow> ev_time (min_event e es) \<le> ev_time x"
proof (induction es arbitrary: e x)
  case Nil
  then show ?case by simp
next
  case (Cons y ys)
  let ?m = "if ev_before y e then y else e"
  have step: "ev_time (min_event ?m ys) \<le> ev_time ?m"
    using Cons.IH[of ?m ?m] by simp
  from Cons.prems consider "x = e" | "x = y" | "x \<in> set ys" by auto
  then show ?case
  proof cases
    case 1
    with step show ?thesis by (auto split: if_splits)
  next
    case 2
    with step show ?thesis by (auto split: if_splits)
  next
    case 3
    then show ?thesis using Cons.IH[of x "if ev_before y e then y else e"] by simp
  qed
qed

lemma pop_event_Some:
  assumes "pop_event q = Some (e, q')"
  shows "e \<in> set q \<and> q' = remove1 e q \<and> (\<forall>x\<in>set q. ev_time e \<le> ev_time x)"
proof (cases q)
  case Nil
  with assms show ?thesis
    by (simp add: pop_event_def)
next
  case (Cons x xs)
  with assms have e: "e = min_event x xs" and q': "q' = remove1 e q"
    by (auto simp: pop_event_def Let_def)
  from e min_event_mem[of x xs] Cons have "e \<in> set q"
    by simp
  moreover have "ev_time e \<le> ev_time y" if "y \<in> set q" for y
    using that e min_event_least[of y x xs] Cons by simp
  ultimately show ?thesis
    using q' by simp
qed

lemma popped_fields [simp]:
  "cfg (popped e s) = cfg s"
  "now (popped e s) = ev_time e"
  "next_eid (popped e s) = next_eid s"
  "queue (popped e s) = remove1 e (queue s)"
  "procs (popped e s) = procs s"
  "stops_map (popped e s) = stops_map s"
  "pax (popped e s) = pax s"
  "metrics (popped e s) = metrics s"
  by (simp_all add: popped_def)

lemma sim_step_cases:
  assumes "sim_step d s = Inr s'"
  obtains (idle) "s' = s"
  | (event) e where "e \<in> set (queue s)" "\<forall>x\<in>set (queue s). ev_time e \<le> ev_time x"
      "ev_time e < SIM_TIME (cfg s)" "dispatch d (ev_target e) (popped e s) = Inr s'"
proof (cases "pop_event (queue s)")
  case None
  with assms have "s' = s" by (simp add: sim_step_def)
  then show ?thesis by (rule idle)
next
  case (Some a)
  obtain e q where a: "a = (e, q)" by (cases a)
  show ?thesis
  proof (cases "SIM_TIME (cfg s) \<le> ev_time e")
    case True
    with assms Some a have "s' = s" by (simp add: sim_step_def)
    then show ?thesis by (rule idle)
  next
    case False
    from pop_event_Some[OF Some[unfolded a]]
    have e: "e \<in> set (queue s)" "q = remove1 e (queue s)"
        "\<forall>x\<in>set (queue s). ev_time e \<le> ev_time x"
      by simp_all
    from False have lt: "ev_time e < SIM_TIME (cfg s)"
      by simp
    from assms Some a False e(2) have "dispatch d (ev_target e) (popped e s) = Inr s'"
      by (simp add: sim_step_def popped_def)
    with e(1,3) lt show ?thesis
      by (rule event)
  qed
qed

section \<open>The basic invariant\<close>

lemma no_getters_popped [simp]: "no_getters (popped e s) = no_getters s"
  by (simp add: no_getters_def)

lemma pending_remove1: "pending p (remove1 e q) = remove1 e (pending p q)"
  by (simp add: pending_def filter_remove1)

lemma pending_append [simp]: "pending p (q @ r) = pending p q @ pending p r"
  by (simp add: pending_def)

lemma pending_popped:
  assumes "length (pending p q) \<le> 1" "e \<in> set q" "ev_target e = Resume p"
  shows "pending p (remove1 e q) = []"
proof -
  from assms(2,3) have "e \<in> set (pending p q)"
    by (simp add: pending_def)
  with assms(1) have "pending p q = [e]"
    by (cases "pending p q") auto
  then show ?thesis
    by (simp add: pending_remove1)
qed

lemma pending_others: "length (pending p (remove1 e q)) \<le> length (pending p q)"
  by (simp add: pending_remove1 length_remove1)

lemma base_inv_step:
  assumes "sim_step d s = Inr s'" and "base_inv s"
  shows "base_inv s'"
  using assms(1)
proof (cases rule: sim_step_cases)
  case idle
  with assms(2) show ?thesis by simp
next
  case (event e)
  from assms(2) have ng: "no_getters (popped e s)"
    by (simp add: base_inv_def)
  from dispatch_frame[OF event(4) ng]
  have fr: "step_frame (ev_target e) (popped e s) s'" .
  from fr have now': "now s' = ev_time e" and ng': "no_getters s'"
    and len: "length (procs s') = length (procs s)"
    and blk: "\<And>q b. procs s' ! q = BusP b \<Longrightarrow> pc b = PGet None \<Longrightarrow> procs s ! q = BusP b"
    by (simp_all add: step_frame_def)
  from fr obtain evs where evs: "queue s' = remove1 e (queue s) @ evs"
      "\<forall>x\<in>set evs. ev_time e \<le> ev_time x"
      "\<forall>q. length (pending q evs) \<le> (if ev_target e = Resume q then 1 else 0)"
    unfolding step_frame_def by auto
  have time: "now s' \<le> ev_time x" if "x \<in> set (queue s')" for x
  proof -
    from that evs(1) consider "x \<in> set (remove1 e (queue s))" | "x \<in> set evs"
      by auto
    then show ?thesis
    proof cases
      case 1
      then have "x \<in> set (queue s)"
        using set_remove1_subset[of e "queue s"] by blast
      with event(2) now' show ?thesis by simp
    next
      case 2
      with evs(2) now' show ?thesis by simp
    qed
  qed
  have pend: "length (pending p (queue s')) \<le> 1" for p
  proof -
    from assms(2) have le: "length (pending p (queue s)) \<le> 1"
      by (simp add: base_inv_def)
    show ?thesis
    proof (cases "ev_target e = Resume p")
      case True
      from evs(3) True have "length (pending p evs) \<le> 1"
        by (metis (full_types))
      with pending_popped[OF le event(1) True] evs(1) show ?thesis
        by simp
    next
      case False
      from evs(3) False have "length (pending p evs) \<le> 0"
        by (metis (full_types))
      with pending_others[of p e "queue s"] le evs(1) show ?thesis
        by simp
    qed
  qed
  have blocked: "pc b \<noteq> PGet None" if "p < length (procs s')" "procs s' ! p = BusP b" for p b
  proof
    assume "pc b = PGet None"
    from blk[OF that(2) this] that(1) len assms(2) \<open>pc b = PGet None\<close> show False
      by (simp add: base_inv_def)
  qed
  from ng' time pend blocked show ?thesis
    unfolding base_inv_def by blast
qed

section \<open>The state that setup builds\<close>

lemma process_fields [simp]:
  "cfg (process v s) = cfg s"
  "now (process v s) = now s"
  "next_eid (process v s) = Suc (next_eid s)"
  "queue (process v s) =
     queue s @ [\<lparr>ev_time = now s + 0, ev_prio = 0, ev_id = next_eid s,
                 ev_target = Resume (length (procs s))\<rparr>]"
  "procs (process v s) = procs s @ [v]"
  "stops_map (process v s) = stops_map s"
  "pax (process v s) = pax s"
  "metrics (process v s) = metrics s"
  by (simp_all add: process_def)

lemma init_ok_process: "init_ok c s \<Longrightarrow> fresh c v \<Longrightarrow> init_ok c (process v s)"
  by (auto simp: init_ok_def start_event_def)

lemma init_ok_Bus: "init_ok c s \<Longrightarrow> init_ok c (Bus bid rn sts ri st s)"
  unfolding Bus_def
  by (rule init_ok_process) (auto simp: init_ok_def)

lemma init_ok_start_generator: "init_ok c s \<Longrightarrow> init_ok c (start_generator rs s e)"
  by (auto simp: start_generator_def intro: init_ok_process split: option.splits)

lemma init_ok_foldl:
  "(\<And>s x. init_ok c s \<Longrightarrow> init_ok c (f s x)) \<Longrightarrow> init_ok c s \<Longrightarrow> init_ok c (foldl f s xs)"
  by (induction xs arbitrary: s) auto

lemma init_ok_start_buses: "init_ok c s \<Longrightarrow> init_ok c (start_buses s e)"
  unfolding start_buses_def
  by (rule init_ok_foldl) (auto intro: init_ok_Bus)

lemma new_stops_set: "new_stops m \<Longrightarrow> new_stops (dict_set n (Stop n) m)"
  by (simp add: new_stops_def)

lemma new_stops_route: "new_stops m \<Longrightarrow> new_stops (foldl (\<lambda>m n. dict_set n (Stop n) m) m ns)"
  by (induction ns arbitrary: m) (simp_all add: new_stops_set)

lemma new_stops_routes:
  "new_stops m \<Longrightarrow>
     new_stops (foldl (\<lambda>m r. foldl (\<lambda>m n. dict_set n (Stop n) m) m (stops r)) m rs)"
  by (induction rs arbitrary: m) (simp_all add: new_stops_route)

lemma create_stops_Stop: "map_of (create_stops rs) n = Some st \<Longrightarrow> st = Stop n"
proof -
  have "new_stops []"
    by (simp add: new_stops_def)
  then have "new_stops (create_stops rs)"
    unfolding create_stops_def by (rule new_stops_routes)
  then show "map_of (create_stops rs) n = Some st \<Longrightarrow> st = Stop n"
    unfolding new_stops_def by blast
qed

lemma init_ok_setup: "init_ok c (simulation_setup c)"
proof -
  let ?s0 = "\<lparr>cfg = c, now = 0, next_eid = 0, queue = [], procs = [],
              stops_map = create_stops (ROUTES c), pax = [], metrics = empty_metrics\<rparr>"
  have 0: "init_ok c ?s0"
    by (auto simp: init_ok_def empty_metrics_def dest: create_stops_Stop)
  have 1: "init_ok c (foldl (start_generator (map snd (ROUTES c))) ?s0 (ARRIVAL_RATES c))"
    by (rule init_ok_foldl) (auto intro: init_ok_start_generator 0)
  have 2: "init_ok c (foldl start_buses
      (foldl (start_generator (map snd (ROUTES c))) ?s0 (ARRIVAL_RATES c)) (ROUTES c))"
    by (rule init_ok_foldl) (auto intro: init_ok_start_buses 1)
  show ?thesis
    unfolding simulation_setup_def Let_def
    by (rule init_ok_process) (auto intro: 2)
qed

lemma pending_start: "length (pending p (map start_event [0 ..< n])) \<le> 1"
  by (induction n) (auto simp: pending_def start_event_def)

lemma init_base_inv: "init_ok c s \<Longrightarrow> base_inv s"
  unfolding base_inv_def
proof (intro conjI allI impI ballI)
  assume i: "init_ok c s"
  show "no_getters s"
    unfolding no_getters_def
  proof (intro allI impI)
    fix n st
    assume "map_of (stops_map s) n = Some st"
    with i have "st = Stop n"
      unfolding init_ok_def by blast
    then show "get_queue st = []"
      by (simp add: Stop_def)
  qed
  show "now s \<le> ev_time e" if "e \<in> set (queue s)" for e
    using i that by (auto simp: init_ok_def start_event_def)
  show "length (pending p (queue s)) \<le> 1" for p
    using i pending_start[of p "length (procs s)"] by (simp add: init_ok_def)
  show "pc b \<noteq> PGet None" if "p < length (procs s)" "procs s ! p = BusP b" for p b
  proof -
    from that have "BusP b \<in> set (procs s)"
      by (metis nth_mem)
    moreover from i have "\<forall>v\<in>set (procs s). fresh c v"
      by (simp add: init_ok_def)
    ultimately have "fresh c (BusP b)"
      by blast
    then show ?thesis by auto
  qed
qed

section \<open>Runs\<close>

lemma sim_run_invariant:
  assumes "sim_run ds s = Inr s'" and "P s"
    and "\<And>d s s'. P s \<Longrightarrow> sim_step d s = Inr s' \<Longrightarrow> P s'"
  shows "P s'"
  using assms(1,2)
proof (induction ds arbitrary: s)
  case Nil
  then show ?case by simp
next
  case (Cons d ds)
  then obtain s1 where s1: "sim_step d s = Inr s1" "sim_run ds s1 = Inr s'"
    by (auto split: sum.splits)
  from assms(3)[OF Cons.prems(2) s1(1)] have "P s1" .
  with s1(2) show ?case by (rule Cons.IH)
qed

lemma run_simulation_Inr:
  "run_simulation ds c = Inr s \<longleftrightarrow> 0 < SIM_TIME c \<and> sim_run ds (simulation_setup c) = Inr s"
  by (auto simp: run_simulation_def)

lemma run_base_inv:
  assumes "run_simulation ds c = Inr s"
  shows "base_inv s"
proof -
  from assms have r: "sim_run ds (simulation_setup c) = Inr s"
    by (simp add: run_simulation_Inr)
  have "base_inv (simulation_setup c)"
    by (rule init_base_inv) (rule init_ok_setup)
  with r show ?thesis
    by (rule sim_run_invariant) (rule base_inv_step)
qed

section \<open>A proof rule for one resumption of a bus\<close>

lemma bus_exec_LAlight:
  "bus_exec LAlight g p b s =
     (if current_index b < length (bus_stops b) then
        if alighting b s \<noteq> [] then
          (case timeout (of_nat (length (alighting b s)) * ALIGHTING_TIME (cfg s)) p (alight_sim b s) of
             Inl e \<Rightarrow> Inl e
           | Inr s2 \<Rightarrow> Inr (suspend p (alight_bus b s) PAlighted s2))
        else bus_exec LBoard g p (alight_bus b s) (alight_sim b s)
      else Inl IndexError)"
  by (simp add: bus_exec.simps(1) Let_def alighting_def alight_pax_def alight_bus_def alight_sim_def
      cong: sum.case_cong)

lemma bus_exec_LWhile:
  "bus_exec LWhile g p b s =
     (if 0 < t b then
        (case stat_travel (bus_id b) (min 1 (t b)) (of_nat (length (onboard b)) * min 1 (t b))
                (metrics s) of
           Inl e \<Rightarrow> Inl e
         | Inr m \<Rightarrow>
             (case timeout (min 1 (t b)) p (s\<lparr>metrics := m\<rparr>) of
                Inl e \<Rightarrow> Inl e
              | Inr s1 \<Rightarrow> Inr (suspend p (travel_bus b) PTravel s1)))
      else bus_exec LAdvance g p b s)"
  by (simp add: bus_exec.simps(6) Let_def travel_bus_def cong: sum.case_cong)

lemma bus_exec_LAdvance:
  "bus_exec LAdvance g p b s =
     (if length (bus_stops b) = 0 then Inl ZeroDivisionError
      else if next_index b = 0 then
        (case stat_trip (bus_id b) (metrics s) of
           Inl e \<Rightarrow> Inl e
         | Inr m \<Rightarrow>
             bus_exec LAlight g p
               (b\<lparr>current_index := next_index b, trips_completed := trips_completed b + 1\<rparr>)
               (s\<lparr>metrics := m\<rparr>))
      else bus_exec LAlight g p (b\<lparr>current_index := next_index b\<rparr>) s)"
  by (simp add: bus_exec.simps(7) Let_def next_index_def cong: sum.case_cong)

text \<open>
  \<open>I l b s\<close> is what holds when the bus \<open>b\<close> reaches program point \<open>l\<close> in state \<open>s\<close>, and
  \<open>Q s'\<close> what holds of the state in which it is suspended again.
\<close>

lemma bus_exec_rule:
  assumes run: "bus_exec l g p b s = Inr s'"
    and ng: "no_getters s"
    and I: "I l b s"
    and alight_yield: "\<And>b s. I LAlight b s \<Longrightarrow> current_index b < length (bus_stops b) \<Longrightarrow>
        alighting b s \<noteq> [] \<Longrightarrow> 0 \<le> of_nat (length (alighting b s)) * ALIGHTING_TIME (cfg s) \<Longrightarrow>
        Q (suspend p (alight_bus b s) PAlighted
            (schedule (of_nat (length (alighting b s)) * ALIGHTING_TIME (cfg s)) 1 (Resume p)
               (alight_sim b s)))"
    and alight_on: "\<And>b s. I LAlight b s \<Longrightarrow> current_index b < length (bus_stops b) \<Longrightarrow>
        alighting b s = [] \<Longrightarrow> I LBoard (alight_bus b s) (alight_sim b s)"
    and board: "\<And>b s. I LBoard b s \<Longrightarrow>
        I LLoop (b\<lparr>free_space := capacity b - int (length (onboard b)), boarded := 0\<rparr>) s"
    and loop_get: "\<And>b s st a as. I LLoop b s \<Longrightarrow> map_of (stops_map s) (cur_stop b) = Some st \<Longrightarrow>
        get_queue st = [] \<Longrightarrow> items st = a # as \<Longrightarrow> 0 < free_space b \<Longrightarrow>
        Q (schedule 0 1 (Resume p)
            (suspend p b (PGet (Some a)) (set_stop (cur_stop b) (st\<lparr>items := as\<rparr>) s)))"
    and loop_exit: "\<And>b s st. I LLoop b s \<Longrightarrow> map_of (stops_map s) (cur_stop b) = Some st \<Longrightarrow>
        \<not> (0 < free_space b \<and> 0 < length (items st)) \<Longrightarrow> I LDwell b s"
    and dwell_yield: "\<And>b s. I LDwell b s \<Longrightarrow> boarded b = 0 \<Longrightarrow> alighted b = 0 \<Longrightarrow>
        0 \<le> MIN_DWELL (cfg s) \<Longrightarrow>
        Q (suspend p b PDwelled (schedule (MIN_DWELL (cfg s)) 1 (Resume p) s))"
    and dwell_on: "\<And>b s. I LDwell b s \<Longrightarrow> \<not> (boarded b = 0 \<and> alighted b = 0) \<Longrightarrow> I LTravel b s"
    and travel: "\<And>b s. I LTravel b s \<Longrightarrow> I LWhile (b\<lparr>t := travel_time g\<rparr>) s"
    and while_yield: "\<And>b s m. I LWhile b s \<Longrightarrow> 0 < t b \<Longrightarrow>
        stat_travel (bus_id b) (min 1 (t b)) (of_nat (length (onboard b)) * min 1 (t b))
          (metrics s) = Inr m \<Longrightarrow>
        Q (suspend p (travel_bus b) PTravel
            (schedule (min 1 (t b)) 1 (Resume p) (s\<lparr>metrics := m\<rparr>)))"
    and while_exit: "\<And>b s. I LWhile b s \<Longrightarrow> \<not> 0 < t b \<Longrightarrow> I LAdvance b s"
    and advance_lap: "\<And>b s m. I LAdvance b s \<Longrightarrow> bus_stops b \<noteq> [] \<Longrightarrow> next_index b = 0 \<Longrightarrow>
        stat_trip (bus_id b) (metrics s) = Inr m \<Longrightarrow>
        I LAlight (b\<lparr>current_index := next_index b, trips_completed := trips_completed b + 1\<rparr>)
          (s\<lparr>metrics := m\<rparr>)"
    and advance_on: "\<And>b s. I LAdvance b s \<Longrightarrow> bus_stops b \<noteq> [] \<Longrightarrow> next_index b \<noteq> 0 \<Longrightarrow>
        I LAlight (b\<lparr>current_index := next_index b\<rparr>) s"
    and frame: "\<And>l b s h. I l b s \<Longrightarrow> p < length (procs s)"
  shows "Q s'"
proof -
  have "bus_exec l g' p' b s = Inr s' \<Longrightarrow> g' = g \<Longrightarrow> p' = p \<Longrightarrow> no_getters s \<Longrightarrow> I l b s \<Longrightarrow> Q s'"
    for g' p'
  proof (induction l g' p' b s rule: bus_exec.induct)
    case (1 g' p' b s)
    then have eqs: "g' = g" "p' = p" by simp_all
    note prems = "1.prems"[unfolded eqs] and IH = "1.IH"[unfolded eqs]
    from prems(1) have idx: "current_index b < length (bus_stops b)"
      by (simp add: bus_exec_LAlight split: if_splits)
    show ?case
    proof (cases "alighting b s = []")
      case True
      with prems(1) idx have r: "bus_exec LBoard g p (alight_bus b s) (alight_sim b s) = Inr s'"
        by (simp add: bus_exec_LAlight)
      have n: "no_getters (alight_sim b s)"
        using prems(4) by (simp add: alight_sim_def)
      have i: "I LBoard (alight_bus b s) (alight_sim b s)"
        using prems(5) idx True by (rule alight_on)
      have e: "\<not> filter (\<lambda>a. destination (pax s ! a) = bus_stops b ! current_index b) (onboard b) \<noteq> []"
        using True by (simp add: alighting_def)
      from r n i show ?thesis
        using IH[OF idx refl refl refl refl e]
        by (simp add: alighting_def alight_bus_def alight_sim_def alight_pax_def)
    next
      case False
      with prems(1) idx
      have "0 \<le> of_nat (length (alighting b s)) * ALIGHTING_TIME (cfg s)"
        and "s' = suspend p (alight_bus b s) PAlighted
              (schedule (of_nat (length (alighting b s)) * ALIGHTING_TIME (cfg s)) 1 (Resume p)
                 (alight_sim b s))"
        by (auto simp: bus_exec_LAlight alight_sim_def split: sum.splits)
      with alight_yield[OF prems(5) idx False] show ?thesis
        by simp
    qed
  next
    case (2 g' p' b s)
    then have eqs: "g' = g" "p' = p" by simp_all
    note prems = "2.prems"[unfolded eqs] and IH = "2.IH"[unfolded eqs]
    from prems(1)
    have "bus_exec LLoop g p (b\<lparr>free_space := capacity b - int (length (onboard b)), boarded := 0\<rparr>) s = Inr s'"
      by (simp add: bus_exec.simps(2))
    then show ?case
      using refl refl prems(4) board[OF prems(5)] by (rule IH)
  next
    case (3 g' p' b s)
    then have eqs: "g' = g" "p' = p" by simp_all
    note prems = "3.prems"[unfolded eqs] and IH = "3.IH"[unfolded eqs]
    from prems(1) obtain st where st: "map_of (stops_map s) (cur_stop b) = Some st"
      by (auto simp: bus_exec.simps(3) split: option.splits)
    from prems(4) st have gq: "get_queue st = []"
      by (auto simp: no_getters_def)
    have p: "p < length (procs s)"
      using prems(5) by (rule frame)
    show ?case
    proof (cases "0 < free_space b \<and> 0 < length (items st)")
      case True
      then obtain a as where it: "items st = a # as"
        by (cases "items st") auto
      from prems(1) st True get_passenger_ready[OF prems(4) st it p, of b]
      have "s' = schedule 0 1 (Resume p) (suspend p b (PGet (Some a)) (set_stop (cur_stop b) (st\<lparr>items := as\<rparr>) s))"
        by (simp add: bus_exec.simps(3))
      with loop_get[OF prems(5) st gq it] True show ?thesis
        by simp
    next
      case False
      with prems(1) st have r: "bus_exec LDwell g p b s = Inr s'"
        by (auto simp: bus_exec.simps(3) split: if_splits)
      from r refl refl prems(4) loop_exit[OF prems(5) st False] show ?thesis
        by (rule IH[OF st False])
    qed
  next
    case (4 g' p' b s)
    then have eqs: "g' = g" "p' = p" by simp_all
    note prems = "4.prems"[unfolded eqs] and IH = "4.IH"[unfolded eqs]
    show ?case
    proof (cases "boarded b = 0 \<and> alighted b = 0")
      case True
      with prems(1) have "0 \<le> MIN_DWELL (cfg s)"
        and "s' = suspend p b PDwelled (schedule (MIN_DWELL (cfg s)) 1 (Resume p) s)"
        by (auto simp: bus_exec.simps(4) split: sum.splits)
      with dwell_yield[OF prems(5)] True show ?thesis
        by simp
    next
      case False
      with prems(1) have r: "bus_exec LTravel g p b s = Inr s'"
        by (simp add: bus_exec.simps(4))
      from r refl refl prems(4) dwell_on[OF prems(5) False] show ?thesis
        by (rule IH[OF False])
    qed
  next
    case (5 g' p' b s)
    then have eqs: "g' = g" "p' = p" by simp_all
    note prems = "5.prems"[unfolded eqs] and IH = "5.IH"[unfolded eqs]
    from prems(1) have "bus_exec LWhile g p (b\<lparr>t := travel_time g\<rparr>) s = Inr s'"
      by (simp add: bus_exec.simps(5))
    then show ?case
      using refl refl prems(4) travel[OF prems(5)] by (rule IH)
  next
    case (6 g' p' b s)
    then have eqs: "g' = g" "p' = p" by simp_all
    note prems = "6.prems"[unfolded eqs] and IH = "6.IH"[unfolded eqs]
    show ?case
    proof (cases "0 < t b")
      case True
      with prems(1) obtain m where
        m: "stat_travel (bus_id b) (min 1 (t b)) (of_nat (length (onboard b)) * min 1 (t b))
              (metrics s) = Inr m"
        and "s' = suspend p (travel_bus b) PTravel
              (schedule (min 1 (t b)) 1 (Resume p) (s\<lparr>metrics := m\<rparr>))"
        by (auto simp: bus_exec_LWhile split: sum.splits)
      with while_yield[OF prems(5) True m] show ?thesis
        by simp
    next
      case False
      with prems(1) have r: "bus_exec LAdvance g p b s = Inr s'"
        by (simp add: bus_exec_LWhile)
      from r refl refl prems(4) while_exit[OF prems(5) False] show ?thesis
        by (rule IH[OF False])
    qed
  next
    case (7 g' p' b s)
    then have eqs: "g' = g" "p' = p" by simp_all
    note prems = "7.prems"[unfolded eqs] and IH = "7.IH"[unfolded eqs]
    from prems(1) have ne: "bus_stops b \<noteq> []"
      by (auto simp: bus_exec_LAdvance split: if_splits)
    then have ne': "\<not> length (bus_stops b) = 0"
      by simp
    show ?case
    proof (cases "next_index b = 0")
      case True
      with prems(1) ne obtain m where m: "stat_trip (bus_id b) (metrics s) = Inr m"
        and r: "bus_exec LAlight g p
                 (b\<lparr>current_index := next_index b, trips_completed := trips_completed b + 1\<rparr>)
                 (s\<lparr>metrics := m\<rparr>) = Inr s'"
        by (auto simp: bus_exec_LAdvance split: sum.splits)
      have n: "no_getters (s\<lparr>metrics := m\<rparr>)"
        using prems(4) by simp
      have c: "current_index (b\<lparr>current_index := (current_index b + 1) mod length (bus_stops b)\<rparr>) = 0"
        using True by (simp add: next_index_def)
      from r n advance_lap[OF prems(5) ne True m] show ?thesis
        using IH(1)[OF ne' refl c m]
        by (simp add: next_index_def)
    next
      case False
      with prems(1) ne
      have r: "bus_exec LAlight g p (b\<lparr>current_index := next_index b\<rparr>) s = Inr s'"
        by (auto simp: bus_exec_LAdvance)
      have c: "\<not> current_index (b\<lparr>current_index := (current_index b + 1) mod length (bus_stops b)\<rparr>) = 0"
        using False by (simp add: next_index_def)
      from r prems(4) advance_on[OF prems(5) ne False] show ?thesis
        using IH(2)[OF ne' refl c]
        by (simp add: next_index_def)
    qed
  qed
  from this[OF run refl refl ng I] show ?thesis .
qed

section \<open>Seats\<close>

lemma length_fold_remove1: "length (foldl (\<lambda>xs a. remove1 a xs) xs as) \<le> length xs"
proof (induction as arbitrary: xs)
  case Nil
  then show ?case by simp
next
  case (Cons a as)
  have "length (foldl (\<lambda>xs a. remove1 a xs) (remove1 a xs) as) \<le> length (remove1 a xs)"
    by (rule Cons.IH)
  also have "\<dots> \<le> length xs"
    by (simp add: length_remove1)
  finally show ?case by simp
qed

lemma length_fold_remove1_int:
  "int (length xs) \<le> c \<Longrightarrow> int (length (foldl (\<lambda>xs a. remove1 a xs) xs as)) \<le> c"
  using length_fold_remove1[of xs as] by linarith

lemma bus_exec_seats:
  assumes "bus_exec l g p b s = Inr s'" "no_getters s" "p < length (procs s)"
    "int (length (onboard b)) \<le> capacity b"
    "l = LLoop \<longrightarrow> free_space b = capacity b - int (length (onboard b))"
  shows "\<exists>b'. procs s' ! p = BusP b' \<and> seats_ok b' \<and> capacity b' = capacity b"
proof -
  define I where "I = (\<lambda>(l::label) (b'::bus) (s::sim). p < length (procs s) \<and>
      int (length (onboard b')) \<le> capacity b' \<and> capacity b' = capacity b \<and>
      (l = LLoop \<longrightarrow> free_space b' = capacity b' - int (length (onboard b'))))"
  define Q where "Q = (\<lambda>s'::sim. \<exists>b'. procs s' ! p = BusP b' \<and> seats_ok b' \<and> capacity b' = capacity b)"
  have "Q s'"
    using assms(1,2)
    by (rule bus_exec_rule[where I = I and Q = Q])
       (use assms(3-5) in \<open>auto simp: I_def Q_def seats_ok_def alight_bus_def alight_sim_def
          travel_bus_def intro: length_fold_remove1_int\<close>)
  then show ?thesis
    by (simp add: Q_def)
qed

lemma bus_board_seats:
  "bus_board a p b s = Inr s' \<Longrightarrow> p < length (procs s) \<Longrightarrow> seats_ok b \<Longrightarrow> pc b = PGet x \<Longrightarrow>
     \<exists>b'. procs s' ! p = BusP b' \<and> seats_ok b' \<and> capacity b' = capacity b"
  by (auto simp: bus_board_def Let_def seats_ok_def split: sum.splits)

lemma bus_resume_seats:
  assumes "bus_resume g p b s = Inr s'" "no_getters s" "p < length (procs s)" "seats_ok b"
  shows "\<exists>b'. procs s' ! p = BusP b' \<and> seats_ok b' \<and> capacity b' = capacity b"
proof -
  from assms(4) have le: "int (length (onboard b)) \<le> capacity b"
    by (simp add: seats_ok_def)
  show ?thesis
  proof (cases "pc b")
    case PStart
    with assms show ?thesis
      by (auto simp: bus_resume_def seats_ok_def split: sum.splits)
  next
    case PStarted
    with assms(1) have "bus_exec LAlight g p b s = Inr s'"
      by (simp add: bus_resume_def)
    from bus_exec_seats[OF this assms(2,3) le] show ?thesis by simp
  next
    case PAlighted
    with assms(1) have "bus_exec LBoard g p b s = Inr s'"
      by (simp add: bus_resume_def)
    from bus_exec_seats[OF this assms(2,3) le] show ?thesis by simp
  next
    case (PGet x)
    with assms(1) obtain a where "x = Some a" "bus_board a p b s = Inr s'"
      by (cases x) (auto simp: bus_resume_def)
    with bus_board_seats[OF this(2) assms(3,4) PGet] show ?thesis by simp
  next
    case PBoarded
    with assms(1) have r: "bus_exec LLoop g p b s = Inr s'"
      by (simp add: bus_resume_def)
    from assms(4) PBoarded have "free_space b = capacity b - int (length (onboard b))"
      by (simp add: seats_ok_def)
    with bus_exec_seats[OF r assms(2,3) le] show ?thesis by simp
  next
    case PDwelled
    with assms(1) have "bus_exec LTravel g p b s = Inr s'"
      by (simp add: bus_resume_def)
    from bus_exec_seats[OF this assms(2,3) le] show ?thesis by simp
  next
    case PTravel
    with assms(1) have "bus_exec LWhile g p (b\<lparr>t := t b - step b\<rparr>) s = Inr s'"
      by (simp add: bus_resume_def)
    from bus_exec_seats[OF this assms(2,3)] le show ?thesis by simp
  qed
qed

text \<open>A bus of the new state is the one that was resumed, or is unchanged.\<close>

lemma step_frame_other: "step_frame tg s s' \<Longrightarrow> tg \<noteq> Resume q \<Longrightarrow> procs s' ! q = procs s ! q"
  unfolding step_frame_def by blast

lemma step_frame_same:
  "step_frame tg s s' \<Longrightarrow>
     cfg s' = cfg s \<and> now s' = now s \<and> length (procs s') = length (procs s)"
  unfolding step_frame_def by blast

lemma dispatch_bus:
  assumes "dispatch d tg s = Inr s'" "no_getters s" "q < length (procs s')" "procs s' ! q = BusP b'"
  shows "procs s ! q = BusP b' \<or>
         (tg = Resume q \<and> (\<exists>b. procs s ! q = BusP b \<and> bus_resume (gauss d) q b s = Inr s'))"
proof (cases "tg = Resume q")
  case False
  from dispatch_frame[OF assms(1,2)] False have "procs s' ! q = procs s ! q"
    by (rule step_frame_other)
  with assms(4) show ?thesis by simp
next
  case True
  with assms(1) have q: "q < length (procs s)"
    by (auto simp: dispatch_def resume_def split: if_splits)
  show ?thesis
  proof (cases "procs s ! q")
    case (GenP g)
    with assms(1) True q have "passenger_generator d q g s = Inr s'"
      by (simp add: dispatch_def resume_def)
    then have "\<exists>g'. procs s' = (procs s)[q := GenP g']"
      by (auto simp: passenger_generator_def gen_arrive_def Let_def add_passenger_Inr gen_wait_Inr
          split: gen_pc.splits sum.splits)
    with assms(4) q show ?thesis by auto
  next
    case (BusP b)
    with assms(1) True q show ?thesis
      by (simp add: dispatch_def resume_def)
  next
    case MonP
    with assms(1) True q have "procs s' = procs s"
      by (auto simp: dispatch_def resume_def monitor_def)
    with assms(4) MonP show ?thesis by simp
  qed
qed

lemma cap_inv_step:
  assumes "sim_step d s = Inr s'" and "base_inv s" and "cap_inv s"
  shows "cap_inv s'"
  using assms(1)
proof (cases rule: sim_step_cases)
  case idle
  with assms(3) show ?thesis by simp
next
  case (event e)
  from assms(2) have ng: "no_getters (popped e s)"
    by (simp add: base_inv_def)
  from step_frame_same[OF dispatch_frame[OF event(4) ng]]
  have c: "cfg s' = cfg s" and len: "length (procs s') = length (procs s)"
    by simp_all
  show ?thesis
    unfolding cap_inv_def
  proof (intro allI impI)
    fix q b'
    assume q: "q < length (procs s')" and b': "procs s' ! q = BusP b'"
    from dispatch_bus[OF event(4) ng q b']
    consider "procs s ! q = BusP b'"
      | b where "procs s ! q = BusP b" "bus_resume (gauss d) q b (popped e s) = Inr s'"
      by auto
    then show "seats_ok b' \<and> capacity b' = BUS_CAPACITY (cfg s')"
    proof cases
      case 1
      with assms(3) q len c show ?thesis
        by (simp add: cap_inv_def)
    next
      case 2
      from assms(3) 2(1) q len have ok: "seats_ok b" "capacity b = BUS_CAPACITY (cfg s)"
        by (simp_all add: cap_inv_def)
      from q len have "q < length (procs (popped e s))" by simp
      from bus_resume_seats[OF 2(2) ng this ok(1)] b' ok(2) c show ?thesis
        by auto
    qed
  qed
qed

lemma init_cap_inv:
  assumes "init_ok c s" "0 \<le> BUS_CAPACITY c"
  shows "cap_inv s"
  unfolding cap_inv_def
proof (intro allI impI)
  fix p b
  assume "p < length (procs s)" "procs s ! p = BusP b"
  then have "BusP b \<in> set (procs s)"
    by (metis nth_mem)
  moreover from assms(1) have "\<forall>v\<in>set (procs s). fresh c v" "cfg s = c"
    by (simp_all add: init_ok_def)
  ultimately have "fresh c (BusP b)" "cfg s = c"
    by blast+
  with assms(2) show "seats_ok b \<and> capacity b = BUS_CAPACITY (cfg s)"
    by (simp add: seats_ok_def)
qed

lemma run_cap_inv:
  assumes "run_simulation ds c = Inr s" "0 \<le> BUS_CAPACITY c"
  shows "cap_inv s"
proof -
  from assms have r: "sim_run ds (simulation_setup c) = Inr s"
    by (simp add: run_simulation_Inr)
  have "base_inv (simulation_setup c) \<and> cap_inv (simulation_setup c)"
    using init_base_inv[OF init_ok_setup] init_cap_inv[OF init_ok_setup assms(2)] by simp
  with r have "base_inv s \<and> cap_inv s"
    by (rule sim_run_invariant) (simp add: base_inv_step cap_inv_step)
  then show ?thesis ..
qed

lemma sim_step_cfg:
  assumes "sim_step d s = Inr s'" "base_inv s"
  shows "cfg s' = cfg s"
  using assms(1)
proof (cases rule: sim_step_cases)
  case idle
  then show ?thesis by simp
next
  case (event e)
  from assms(2) have "no_getters (popped e s)"
    by (simp add: base_inv_def)
  from step_frame_same[OF dispatch_frame[OF event(4) this]] show ?thesis
    by simp
qed

lemma run_cfg:
  assumes "run_simulation ds c = Inr s"
  shows "cfg s = c"
proof -
  from assms have "sim_run ds (simulation_setup c) = Inr s"
    by (simp add: run_simulation_Inr)
  moreover have "base_inv (simulation_setup c) \<and> cfg (simulation_setup c) = c"
    using init_ok_setup[of c] init_base_inv[OF init_ok_setup, of c] by (simp add: init_ok_def)
  ultimately have "base_inv s \<and> cfg s = c"
    by (rule sim_run_invariant) (auto simp: base_inv_step sim_step_cfg)
  then show ?thesis ..
qed

section \<open>The get of the boarding loop never blocks\<close>

text \<open>
  C10. In the boarding loop every call of the stop's blocking get is fulfilled at once. In
  every state a run reaches, no get request is pending on any stop and no bus is suspended
  waiting for a passenger that has not been handed over (the blocking branch of the store
  is never taken); and a get issued on a stop whose queue is not empty hands over the head
  of the queue and resumes the caller at the current time.
\<close>

theorem get_never_blocks:
  assumes "run_simulation ds c = Inr s"
  shows "(\<forall>n st. map_of (stops_map s) n = Some st \<longrightarrow> get_queue st = []) \<and>
         (\<forall>p b. p < length (procs s) \<longrightarrow> procs s ! p = BusP b \<longrightarrow> pc b \<noteq> PGet None) \<and>
         (\<forall>s1 n st a as p b.
            stops_map s1 = stops_map s \<longrightarrow> map_of (stops_map s) n = Some st \<longrightarrow>
            items st = a # as \<longrightarrow> p < length (procs s1) \<longrightarrow>
            get_passenger n p (suspend p b (PGet None) s1) =
              Inr (schedule 0 1 (Resume p)
                     (suspend p b (PGet (Some a)) (set_stop n (st\<lparr>items := as\<rparr>) s1))))"
proof -
  from run_base_inv[OF assms] have b: "base_inv s" .
  then have ng: "no_getters s"
    by (simp add: base_inv_def)
  have 1: "\<forall>n st. map_of (stops_map s) n = Some st \<longrightarrow> get_queue st = []"
    using ng by (simp add: no_getters_def)
  have 2: "\<forall>p b. p < length (procs s) \<longrightarrow> procs s ! p = BusP b \<longrightarrow> pc b \<noteq> PGet None"
    using b by (simp add: base_inv_def)
  have 3: "get_passenger n p (suspend p b (PGet None) s1) =
              Inr (schedule 0 1 (Resume p)
                     (suspend p b (PGet (Some a)) (set_stop n (st\<lparr>items := as\<rparr>) s1)))"
    if "stops_map s1 = stops_map s" "map_of (stops_map s) n = Some st" "items st = a # as"
      "p < length (procs s1)" for s1 n st a as p b
  proof -
    from ng that(1) have "no_getters s1"
      by (simp add: no_getters_def)
    moreover from that(1,2) have "map_of (stops_map s1) n = Some st"
      by simp
    ultimately show ?thesis
      using that(3,4) by (rule get_passenger_ready)
  qed
  from 1 2 3 show ?thesis
    by blast
qed

theorem get_never_blocks_witness:
  "\<exists>st b. map_of (stops_map ex_state) ''X'' = Some st \<and> get_queue st = [] \<and> items st = [2] \<and>
     procs ex_state ! 1 = BusP b \<and> pc b \<noteq> PGet None \<and>
     get_passenger ''X'' 1 (suspend 1 b (PGet None) ex_state) =
       Inr (schedule 0 1 (Resume 1)
              (suspend 1 b (PGet (Some 2)) (set_stop ''X'' (st\<lparr>items := []\<rparr>) ex_state)))"
proof -
  have st: "map_of (stops_map ex_state) ''X'' = Some \<lparr>stop_name = ''X'', items = [2], get_queue = []\<rparr>"
    and b: "procs ex_state ! 1 = BusP ex_bus" and p: "(1::nat) < length (procs ex_state)"
    by (simp_all add: ex_state_def)
  from get_never_blocks[OF ex_run] st b p show ?thesis
    by auto
qed

section \<open>Capacity\<close>

text \<open>
  C1. For every bus, in every state a run reaches, \<open>0 \<le> onboard_count \<le> capacity\<close>, and
  the capacity is \<open>BUS_CAPACITY\<close>: the free-space count of the boarding loop (computed at
  the start of the boarding section, decremented per boarding) keeps boarding past
  capacity out of reach.
\<close>

theorem onboard_within_capacity:
  assumes "run_simulation ds c = Inr s" and "0 \<le> BUS_CAPACITY c"
    and "p < length (procs s)" and "procs s ! p = BusP b"
  shows "0 \<le> int (length (onboard b)) \<and> int (length (onboard b)) \<le> capacity b \<and>
         capacity b = BUS_CAPACITY c"
proof -
  from run_cfg[OF assms(1)] have "cfg s = c" .
  moreover from run_cap_inv[OF assms(1,2)] assms(3,4)
  have "seats_ok b \<and> capacity b = BUS_CAPACITY (cfg s)"
    unfolding cap_inv_def by blast
  ultimately show ?thesis
    by (simp add: seats_ok_def)
qed

theorem onboard_within_capacity_witness:
  "0 \<le> int (length (onboard ex_bus)) \<and> int (length (onboard ex_bus)) \<le> capacity ex_bus \<and>
   capacity ex_bus = BUS_CAPACITY ex_config \<and> length (onboard ex_bus) = 2 \<and>
   BUS_CAPACITY ex_config = 2"
proof -
  have c: "0 \<le> BUS_CAPACITY ex_config"
    by (simp add: ex_config_def)
  have p: "1 < length (procs ex_state)" "procs ex_state ! 1 = BusP ex_bus"
    by (simp_all add: ex_state_def)
  from onboard_within_capacity[OF ex_run c p] show ?thesis
    by (simp add: ex_bus_def ex_config_def)
qed

section \<open>Passengers, queues and buses\<close>

subsection \<open>Time passes\<close>

lemma times_ok_later: "times_ok tm H \<Longrightarrow> tm \<le> tm' \<Longrightarrow> times_ok tm' H"
  unfolding times_ok_def by (meson order_trans)

lemma heap_ok_later: "heap_ok tm H S R Hd \<Longrightarrow> tm \<le> tm' \<Longrightarrow> heap_ok tm' H S R Hd"
  by (auto simp: heap_ok_def intro: times_ok_later)

subsection \<open>A passenger arrives\<close>

lemma queued_ok_arrive:
  assumes "queued_ok H S" "S n = Some st" "origin psg = n" "board_time psg = None"
  shows "queued_ok (H @ [psg]) (S(n \<mapsto> st\<lparr>items := items st @ [length H]\<rparr>))"
  unfolding queued_ok_def
proof (intro allI impI)
  fix m st'
  assume m: "(S(n \<mapsto> st\<lparr>items := items st @ [length H]\<rparr>)) m = Some st'"
  show "sorted_wrt (<) (items st') \<and>
        (\<forall>a\<in>set (items st'). a < length (H @ [psg]) \<and> origin ((H @ [psg]) ! a) = m \<and>
           board_time ((H @ [psg]) ! a) = None)"
  proof (cases "m = n")
    case True
    with m have st': "items st' = items st @ [length H]" by auto
    from assms(1,2) have old: "sorted_wrt (<) (items st)"
      "\<forall>a\<in>set (items st). a < length H \<and> origin (H ! a) = n \<and> board_time (H ! a) = None"
      unfolding queued_ok_def by blast+
    from old have "sorted_wrt (<) (items st @ [length H])"
      by (auto simp: sorted_wrt_append)
    moreover have "a < length (H @ [psg]) \<and> origin ((H @ [psg]) ! a) = n \<and>
           board_time ((H @ [psg]) ! a) = None" if "a \<in> set (items st @ [length H])" for a
      using that old(2) assms(3,4) by (auto simp: nth_append)
    ultimately show ?thesis
      using st' True by simp
  next
    case False
    with m have "S m = Some st'" by simp
    with assms(1) have "sorted_wrt (<) (items st')"
      "\<forall>a\<in>set (items st'). a < length H \<and> origin (H ! a) = m \<and> board_time (H ! a) = None"
      unfolding queued_ok_def by blast+
    then show ?thesis
      by (auto simp: nth_append)
  qed
qed

lemma fifo_ok_arrive:
  assumes "fifo_ok H S" "queued_ok H S" "S n = Some st" "origin psg = n"
  shows "fifo_ok (H @ [psg]) (S(n \<mapsto> st\<lparr>items := items st @ [length H]\<rparr>))"
  unfolding fifo_ok_def
proof (intro allI impI ballI)
  fix m st' a q
  assume m: "(S(n \<mapsto> st\<lparr>items := items st @ [length H]\<rparr>)) m = Some st'"
    and a: "a < length (H @ [psg])" "origin ((H @ [psg]) ! a) = m" "a \<notin> set (items st')"
    and q: "q \<in> set (items st')"
  show "a < q"
  proof (cases "m = n")
    case True
    with m have st': "items st' = items st @ [length H]" by auto
    with a have aH: "a < length H" "a \<notin> set (items st)" by auto
    with a(2) True have "origin (H ! a) = n" by (simp add: nth_append)
    with assms(1,3) aH have "\<forall>q\<in>set (items st). a < q"
      unfolding fifo_ok_def by blast
    with q st' aH(1) show ?thesis by auto
  next
    case False
    with m have S: "S m = Some st'" by simp
    from assms(2) S q have "q < length H"
      unfolding queued_ok_def by blast
    show ?thesis
    proof (cases "a < length H")
      case True
      with a(2) have "origin (H ! a) = m" by (simp add: nth_append)
      with assms(1) S True a(3) q show ?thesis
        unfolding fifo_ok_def by blast
    next
      case False
      with a(1) have "a = length H" by simp
      with a(2) assms(4) \<open>m \<noteq> n\<close> show ?thesis by simp
    qed
  qed
qed

lemma held_ok_arrive:
  assumes "held_ok H S Hd" "S n = Some st"
  shows "held_ok (H @ [psg]) (S(n \<mapsto> st\<lparr>items := items st @ [length H]\<rparr>)) Hd"
proof -
  from assms(1) have
    1: "\<And>p a. p < length Hd \<Longrightarrow> Hd ! p = Some a \<Longrightarrow>
          a < length H \<and> board_time (H ! a) = None \<and> (\<forall>n st. S n = Some st \<longrightarrow> a \<notin> set (items st))"
    and 2: "\<And>p q a. p < length Hd \<Longrightarrow> q < length Hd \<Longrightarrow> Hd ! p = Some a \<Longrightarrow> Hd ! q = Some a \<Longrightarrow> p = q"
    unfolding held_ok_def by blast+
  have "a < length (H @ [psg]) \<and> board_time ((H @ [psg]) ! a) = None \<and>
        (\<forall>m st'. (S(n \<mapsto> st\<lparr>items := items st @ [length H]\<rparr>)) m = Some st' \<longrightarrow> a \<notin> set (items st'))"
    if "p < length Hd" "Hd ! p = Some a" for p a
    using 1[OF that] assms(2) by (auto simp: nth_append)
  with 2 show ?thesis
    unfolding held_ok_def by blast
qed

lemma riding_ok_arrive:
  assumes "riding_ok H R"
  shows "riding_ok (H @ [psg]) R"
  unfolding riding_ok_def
proof (intro allI impI)
  fix p a
  assume "p < length R" "a \<in> set (R ! p)"
  with assms have "a < length H \<and> board_time (H ! a) \<noteq> None"
    unfolding riding_ok_def by blast
  then show "a < length (H @ [psg]) \<and> board_time ((H @ [psg]) ! a) \<noteq> None"
    by (simp add: nth_append)
qed

lemma times_ok_arrive:
  assumes "times_ok tm H" "arrival_time psg = tm" "board_time psg = None" "alight_time psg = None"
  shows "times_ok tm (H @ [psg])"
  unfolding times_ok_def
proof (intro allI impI)
  fix a
  assume "a < length (H @ [psg])"
  then consider "a < length H" | "a = length H" by fastforce
  then show "arrival_time ((H @ [psg]) ! a) \<le> tm \<and>
        (\<forall>tb. board_time ((H @ [psg]) ! a) = Some tb \<longrightarrow> arrival_time ((H @ [psg]) ! a) \<le> tb \<and> tb \<le> tm) \<and>
        (\<forall>ta. alight_time ((H @ [psg]) ! a) = Some ta \<longrightarrow>
           (\<exists>tb. board_time ((H @ [psg]) ! a) = Some tb \<and> tb \<le> ta \<and> ta \<le> tm))"
  proof cases
    case 1
    with assms(1) show ?thesis
      unfolding times_ok_def by (simp add: nth_append)
  next
    case 2
    with assms(2-4) show ?thesis by simp
  qed
qed

lemma ordered_ok_arrive:
  assumes "ordered_ok H" "times_ok tm H" "arrival_time psg = tm"
  shows "ordered_ok (H @ [psg])"
  unfolding ordered_ok_def
proof (intro allI impI)
  fix a b
  assume ab: "a < b" "b < length (H @ [psg])"
  show "arrival_time ((H @ [psg]) ! a) \<le> arrival_time ((H @ [psg]) ! b)"
  proof (cases "b < length H")
    case True
    with ab assms(1) show ?thesis
      unfolding ordered_ok_def by (simp add: nth_append)
  next
    case False
    with ab have b: "b = length H" and a: "a < length H" by simp_all
    from assms(2) a have "arrival_time (H ! a) \<le> tm"
      unfolding times_ok_def by blast
    with a b assms(3) show ?thesis
      by (simp add: nth_append)
  qed
qed

lemma heap_ok_arrive:
  assumes "heap_ok tm H S R Hd" "S n = Some st" "origin psg = n" "arrival_time psg = tm"
    "board_time psg = None" "alight_time psg = None"
  shows "heap_ok tm (H @ [psg]) (S(n \<mapsto> st\<lparr>items := items st @ [length H]\<rparr>)) R Hd"
  using assms unfolding heap_ok_def
  by (intro conjI queued_ok_arrive fifo_ok_arrive held_ok_arrive riding_ok_arrive times_ok_arrive
        ordered_ok_arrive[where tm = tm])
     simp_all

subsection \<open>Passengers alight\<close>

lemma alight_pax_length [simp]: "length (alight_pax tm H xs) = length H"
  by (simp add: alight_pax_def)

lemma alight_pax_nth:
  "a < length H \<Longrightarrow>
     alight_pax tm H xs ! a = (if a \<in> set xs then (H ! a)\<lparr>alight_time := Some tm\<rparr> else H ! a)"
  unfolding alight_pax_def
proof (induction xs arbitrary: H)
  case Nil
  then show ?case by simp
next
  case (Cons x xs)
  let ?H = "H[x := (H ! x)\<lparr>alight_time := Some tm\<rparr>]"
  from Cons.prems have "a < length ?H" by simp
  have "?H ! a = (if a = x then (H ! a)\<lparr>alight_time := Some tm\<rparr> else H ! a)"
    using Cons.prems by (simp add: nth_list_update)
  with Cons.IH[OF \<open>a < length ?H\<close>] show ?case
    by (cases "a = x") simp_all
qed

lemma same_boarding_alight: "same_boarding H (alight_pax tm H xs)"
  by (simp add: same_boarding_def alight_pax_nth)

lemma queued_ok_same: "queued_ok H S \<Longrightarrow> same_boarding H H' \<Longrightarrow> queued_ok H' S"
  unfolding queued_ok_def same_boarding_def by simp

lemma fifo_ok_same: "fifo_ok H S \<Longrightarrow> same_boarding H H' \<Longrightarrow> fifo_ok H' S"
  unfolding fifo_ok_def same_boarding_def by simp

lemma held_ok_same: "held_ok H S Hd \<Longrightarrow> same_boarding H H' \<Longrightarrow> held_ok H' S Hd"
  unfolding held_ok_def same_boarding_def by simp

lemma ordered_ok_same: "ordered_ok H \<Longrightarrow> same_boarding H H' \<Longrightarrow> ordered_ok H'"
  unfolding ordered_ok_def same_boarding_def by simp

lemma riding_ok_same:
  assumes "riding_ok H R" "same_boarding H H'" "p < length R" "set on' \<subseteq> set (R ! p)"
  shows "riding_ok H' (R[p := on'])"
  unfolding riding_ok_def
proof (intro allI impI)
  fix q a
  assume q: "q < length (R[p := on'])" and a: "a \<in> set (R[p := on'] ! q)"
  have "a \<in> set (R ! q)"
  proof (cases "q = p")
    case True
    with a assms(3,4) show ?thesis by auto
  next
    case False
    with a show ?thesis by simp
  qed
  with assms(1) q have "a < length H \<and> board_time (H ! a) \<noteq> None"
    unfolding riding_ok_def by simp
  with assms(2) show "a < length H' \<and> board_time (H' ! a) \<noteq> None"
    unfolding same_boarding_def by simp
qed

lemma times_ok_alight:
  assumes "times_ok tm H" "\<forall>a\<in>set xs. a < length H \<and> board_time (H ! a) \<noteq> None"
  shows "times_ok tm (alight_pax tm H xs)"
  unfolding times_ok_def
proof (intro allI impI)
  fix a
  assume "a < length (alight_pax tm H xs)"
  then have a: "a < length H" by simp
  from assms(1) a have old: "arrival_time (H ! a) \<le> tm"
    "\<forall>tb. board_time (H ! a) = Some tb \<longrightarrow> arrival_time (H ! a) \<le> tb \<and> tb \<le> tm"
    "\<forall>ta. alight_time (H ! a) = Some ta \<longrightarrow> (\<exists>tb. board_time (H ! a) = Some tb \<and> tb \<le> ta \<and> ta \<le> tm)"
    unfolding times_ok_def by blast+
  let ?H = "alight_pax tm H xs"
  show "arrival_time (?H ! a) \<le> tm \<and>
        (\<forall>tb. board_time (?H ! a) = Some tb \<longrightarrow> arrival_time (?H ! a) \<le> tb \<and> tb \<le> tm) \<and>
        (\<forall>ta. alight_time (?H ! a) = Some ta \<longrightarrow>
           (\<exists>tb. board_time (?H ! a) = Some tb \<and> tb \<le> ta \<and> ta \<le> tm))"
  proof (cases "a \<in> set xs")
    case True
    with assms(2) obtain tb where "board_time (H ! a) = Some tb" by auto
    with old(2) True a show ?thesis
      by (simp add: alight_pax_nth)
  next
    case False
    with old a show ?thesis
      by (simp add: alight_pax_nth)
  qed
qed

lemma heap_ok_alight:
  assumes "heap_ok tm H S R Hd" "p < length R" "set xs \<subseteq> set (R ! p)" "set on' \<subseteq> set (R ! p)"
  shows "heap_ok tm (alight_pax tm H xs) S (R[p := on']) Hd"
proof -
  from assms(1) have r: "riding_ok H R"
    by (simp add: heap_ok_def)
  with assms(2,3) have "\<forall>a\<in>set xs. a < length H \<and> board_time (H ! a) \<noteq> None"
    unfolding riding_ok_def by blast
  with assms show ?thesis
    unfolding heap_ok_def
    by (auto intro: queued_ok_same fifo_ok_same held_ok_same riding_ok_same times_ok_alight
        ordered_ok_same same_boarding_alight)
qed

subsection \<open>A bus takes the head of a queue\<close>

lemma queued_ok_take:
  assumes "queued_ok H S" "S n = Some st" "items st = a # as"
  shows "queued_ok H (S(n \<mapsto> st\<lparr>items := as\<rparr>))"
  unfolding queued_ok_def
proof (intro allI impI)
  fix m st'
  assume m: "(S(n \<mapsto> st\<lparr>items := as\<rparr>)) m = Some st'"
  from assms have old: "sorted_wrt (<) (a # as)"
    "\<forall>x\<in>set (a # as). x < length H \<and> origin (H ! x) = n \<and> board_time (H ! x) = None"
    unfolding queued_ok_def by (metis)+
  show "sorted_wrt (<) (items st') \<and>
        (\<forall>a\<in>set (items st'). a < length H \<and> origin (H ! a) = m \<and> board_time (H ! a) = None)"
  proof (cases "m = n")
    case True
    with m have "items st' = as" by auto
    with old True show ?thesis by simp
  next
    case False
    with m assms(1) show ?thesis
      unfolding queued_ok_def by simp
  qed
qed

lemma fifo_ok_take:
  assumes "fifo_ok H S" "queued_ok H S" "S n = Some st" "items st = a # as"
  shows "fifo_ok H (S(n \<mapsto> st\<lparr>items := as\<rparr>))"
  unfolding fifo_ok_def
proof (intro allI impI ballI)
  fix m st' x q
  assume m: "(S(n \<mapsto> st\<lparr>items := as\<rparr>)) m = Some st'"
    and x: "x < length H" "origin (H ! x) = m" "x \<notin> set (items st')"
    and q: "q \<in> set (items st')"
  show "x < q"
  proof (cases "m = n")
    case True
    with m have st': "items st' = as" by auto
    from assms(2,3,4) have srt: "sorted_wrt (<) (a # as)"
      unfolding queued_ok_def by metis
    show ?thesis
    proof (cases "x = a")
      case True
      with srt q st' show ?thesis by simp
    next
      case False
      with x(3) st' assms(4) have "x \<notin> set (items st)" by simp
      with assms(1,3) x(1,2) \<open>m = n\<close> have "\<forall>q\<in>set (items st). x < q"
        unfolding fifo_ok_def by blast
      with q st' assms(4) show ?thesis by simp
    qed
  next
    case False
    with m have "S m = Some st'" by simp
    with assms(1) x q show ?thesis
      unfolding fifo_ok_def by blast
  qed
qed

lemma held_ok_take:
  assumes "held_ok H S Hd" "queued_ok H S" "S n = Some st" "items st = a # as" "p < length Hd"
  shows "held_ok H (S(n \<mapsto> st\<lparr>items := as\<rparr>)) (Hd[p := Some a])"
proof -
  from assms(1) have
    1: "\<And>q x. q < length Hd \<Longrightarrow> Hd ! q = Some x \<Longrightarrow>
          x < length H \<and> board_time (H ! x) = None \<and> (\<forall>n st. S n = Some st \<longrightarrow> x \<notin> set (items st))"
    and 2: "\<And>q r x. q < length Hd \<Longrightarrow> r < length Hd \<Longrightarrow> Hd ! q = Some x \<Longrightarrow> Hd ! r = Some x \<Longrightarrow> q = r"
    unfolding held_ok_def by blast+
  from assms(2,3,4) have srt: "sorted_wrt (<) (a # as)"
    and here: "a < length H" "origin (H ! a) = n" "board_time (H ! a) = None"
    unfolding queued_ok_def by (metis list.set_intros(1))+
  have elsewhere: "a \<notin> set (items st')" if "S m = Some st'" "m \<noteq> n" for m st'
  proof
    assume "a \<in> set (items st')"
    with assms(2) that(1) have "origin (H ! a) = m"
      unfolding queued_ok_def by blast
    with here(2) that(2) show False by simp
  qed
  have notheld: "Hd ! q \<noteq> Some a" if "q < length Hd" for q
  proof
    assume "Hd ! q = Some a"
    from 1[OF that this] have "\<forall>n st. S n = Some st \<longrightarrow> a \<notin> set (items st)"
      by blast
    with assms(3) have "a \<notin> set (items st)"
      by blast
    with assms(4) show False by simp
  qed
  let ?S = "S(n \<mapsto> st\<lparr>items := as\<rparr>)"
  have A: "x < length H \<and> board_time (H ! x) = None \<and> (\<forall>m st'. ?S m = Some st' \<longrightarrow> x \<notin> set (items st'))"
    if "q < length (Hd[p := Some a])" "Hd[p := Some a] ! q = Some x" for q x
  proof (cases "q = p")
    case True
    with that assms(5) have "x = a" by simp
    with here srt elsewhere show ?thesis by auto
  next
    case False
    with that have q: "q < length Hd" "Hd ! q = Some x" by simp_all
    from 1[OF q] have x: "x < length H" "board_time (H ! x) = None"
      and free: "\<And>m st'. S m = Some st' \<Longrightarrow> x \<notin> set (items st')"
      by blast+
    from free[OF assms(3)] assms(4) have "x \<notin> set as" by simp
    with x free show ?thesis by auto
  qed
  have B: "q = r" if "q < length (Hd[p := Some a])" "r < length (Hd[p := Some a])"
    "Hd[p := Some a] ! q = Some x" "Hd[p := Some a] ! r = Some x" for q r x
  proof (cases "q = p")
    case True
    with that assms(5) have "x = a" by simp
    with that(2,4) notheld[of r] show ?thesis
      using True by (cases "r = p") auto
  next
    case False
    with that(1,3) have q: "q < length Hd" "Hd ! q = Some x" by simp_all
    show ?thesis
    proof (cases "r = p")
      case True
      with that(2,4) assms(5) have "x = a" by simp
      with q notheld[of q] show ?thesis by simp
    next
      case False
      with that(2,4) have "r < length Hd" "Hd ! r = Some x" by simp_all
      with q 2 show ?thesis by blast
    qed
  qed
  from A B show ?thesis
    unfolding held_ok_def by blast
qed

lemma heap_ok_take:
  assumes "heap_ok tm H S R Hd" "S n = Some st" "items st = a # as" "p < length Hd"
  shows "heap_ok tm H (S(n \<mapsto> st\<lparr>items := as\<rparr>)) R (Hd[p := Some a])"
  using assms unfolding heap_ok_def
  by (auto intro: queued_ok_take fifo_ok_take held_ok_take)

subsection \<open>A passenger boards\<close>

lemma heap_ok_board:
  assumes "heap_ok tm H S R Hd" "p < length Hd" "Hd ! p = Some a" "length R = length Hd"
  shows "heap_ok tm (H[a := (H ! a)\<lparr>board_time := Some tm\<rparr>]) S (R[p := R ! p @ [a]])
           (Hd[p := None])"
proof -
  let ?H = "H[a := (H ! a)\<lparr>board_time := Some tm\<rparr>]"
  from assms(1) have qo: "queued_ok H S" and fo: "fifo_ok H S" and ho: "held_ok H S Hd"
    and ro: "riding_ok H R" and to: "times_ok tm H" and oo: "ordered_ok H"
    by (simp_all add: heap_ok_def)
  from ho assms(2,3) have a: "a < length H" "board_time (H ! a) = None"
    and free: "\<And>m st. S m = Some st \<Longrightarrow> a \<notin> set (items st)"
    unfolding held_ok_def by blast+
  from ho have uniq: "\<And>q r x. q < length Hd \<Longrightarrow> r < length Hd \<Longrightarrow> Hd ! q = Some x \<Longrightarrow>
      Hd ! r = Some x \<Longrightarrow> q = r"
    and held: "\<And>q x. q < length Hd \<Longrightarrow> Hd ! q = Some x \<Longrightarrow>
      x < length H \<and> board_time (H ! x) = None \<and> (\<forall>m st. S m = Some st \<longrightarrow> x \<notin> set (items st))"
    unfolding held_ok_def by blast+
  have other: "?H ! x = H ! x" if "x \<noteq> a" for x
    using that by simp
  have orig: "origin (?H ! x) = origin (H ! x)" if "x < length H" for x
    using that by (cases "x = a") simp_all
  have 1: "queued_ok ?H S"
    unfolding queued_ok_def
  proof (intro allI impI)
    fix m st
    assume m: "S m = Some st"
    with qo have old: "sorted_wrt (<) (items st)"
      "\<forall>x\<in>set (items st). x < length H \<and> origin (H ! x) = m \<and> board_time (H ! x) = None"
      unfolding queued_ok_def by blast+
    have "x < length ?H \<and> origin (?H ! x) = m \<and> board_time (?H ! x) = None"
      if "x \<in> set (items st)" for x
    proof -
      from that free[OF m] have "x \<noteq> a" by blast
      with old(2) that show ?thesis by simp
    qed
    with old(1) show "sorted_wrt (<) (items st) \<and>
        (\<forall>x\<in>set (items st). x < length ?H \<and> origin (?H ! x) = m \<and> board_time (?H ! x) = None)"
      by blast
  qed
  have 2: "fifo_ok ?H S"
    using fo orig unfolding fifo_ok_def by simp
  have 3: "held_ok ?H S (Hd[p := None])"
  proof -
    have A: "x < length ?H \<and> board_time (?H ! x) = None \<and> (\<forall>m st. S m = Some st \<longrightarrow> x \<notin> set (items st))"
      if "q < length (Hd[p := None])" "Hd[p := None] ! q = Some x" for q x
    proof -
      from that assms(2) have qp: "q \<noteq> p" by auto
      with that have q: "q < length Hd" "Hd ! q = Some x" by simp_all
      have "x \<noteq> a"
      proof
        assume "x = a"
        with uniq[OF q(1) assms(2)] q(2) assms(3) qp show False by simp
      qed
      with held[OF q] show ?thesis by simp
    qed
    have B: "q = r" if "q < length (Hd[p := None])" "r < length (Hd[p := None])"
      "Hd[p := None] ! q = Some x" "Hd[p := None] ! r = Some x" for q r x
    proof -
      from that assms(2) have "q \<noteq> p" "r \<noteq> p" by auto
      with that have "q < length Hd" "r < length Hd" "Hd ! q = Some x" "Hd ! r = Some x"
        by simp_all
      then show ?thesis by (rule uniq)
    qed
    from A B show ?thesis
      unfolding held_ok_def by blast
  qed
  have 4: "riding_ok ?H (R[p := R ! p @ [a]])"
    unfolding riding_ok_def
  proof (intro allI impI)
    fix q x
    assume q: "q < length (R[p := R ! p @ [a]])" and x: "x \<in> set (R[p := R ! p @ [a]] ! q)"
    show "x < length ?H \<and> board_time (?H ! x) \<noteq> None"
    proof (cases "x = a")
      case True
      with a(1) show ?thesis by simp
    next
      case False
      with q x have "x \<in> set (R ! q)"
        by (cases "q = p") auto
      with ro q have "x < length H \<and> board_time (H ! x) \<noteq> None"
        unfolding riding_ok_def by simp
      with False show ?thesis by simp
    qed
  qed
  have 5: "times_ok tm ?H"
    unfolding times_ok_def
  proof (intro allI impI)
    fix x
    assume "x < length ?H"
    then have x: "x < length H" by simp
    with to have old: "arrival_time (H ! x) \<le> tm"
      "\<forall>tb. board_time (H ! x) = Some tb \<longrightarrow> arrival_time (H ! x) \<le> tb \<and> tb \<le> tm"
      "\<forall>ta. alight_time (H ! x) = Some ta \<longrightarrow> (\<exists>tb. board_time (H ! x) = Some tb \<and> tb \<le> ta \<and> ta \<le> tm)"
      unfolding times_ok_def by blast+
    show "arrival_time (?H ! x) \<le> tm \<and>
        (\<forall>tb. board_time (?H ! x) = Some tb \<longrightarrow> arrival_time (?H ! x) \<le> tb \<and> tb \<le> tm) \<and>
        (\<forall>ta. alight_time (?H ! x) = Some ta \<longrightarrow>
           (\<exists>tb. board_time (?H ! x) = Some tb \<and> tb \<le> ta \<and> ta \<le> tm))"
    proof (cases "x = a")
      case True
      from old(3) a(2) True have "alight_time (H ! a) = None"
        by (cases "alight_time (H ! a)") auto
      with old(1) True a(1) show ?thesis by simp
    next
      case False
      with old show ?thesis by simp
    qed
  qed
  have arr: "arrival_time (?H ! x) = arrival_time (H ! x)" if "x < length H" for x
    using that by (cases "x = a") simp_all
  have 6: "ordered_ok ?H"
    using oo arr unfolding ordered_ok_def by simp
  from 1 2 3 4 5 6 show ?thesis
    by (simp add: heap_ok_def)
qed

subsection \<open>The invariant along a run\<close>

lemma set_fold_remove1: "set (foldl (\<lambda>xs a. remove1 a xs) xs as) \<subseteq> set xs"
proof (induction as arbitrary: xs)
  case Nil
  then show ?case by simp
next
  case (Cons a as)
  have "set (foldl (\<lambda>xs a. remove1 a xs) (remove1 a xs) as) \<subseteq> set (remove1 a xs)"
    by (rule Cons.IH)
  also have "\<dots> \<subseteq> set xs"
    by (rule set_remove1_subset)
  finally show ?case by simp
qed

lemma heap_run_suspend:
  assumes "heap_run p b s" "\<And>x. k \<noteq> PGet x"
  shows "heap_inv (suspend p b k (schedule dl pr tg s))"
proof -
  from assms(2) have "holding (BusP (b\<lparr>pc := k\<rparr>)) = None"
    by (cases k) auto
  with assms(1) show ?thesis
    by (simp add: heap_run_def heap_inv_def map_update)
qed

lemma heap_run_upd [simp]:
  "heap_run p (b\<lparr>free_space := f, boarded := n\<rparr>) s = heap_run p b s"
  "heap_run p (b\<lparr>t := x\<rparr>) s = heap_run p b s"
  "heap_run p (b\<lparr>current_index := i\<rparr>) s = heap_run p b s"
  "heap_run p (b\<lparr>current_index := i, trips_completed := j\<rparr>) s = heap_run p b s"
  "heap_run p b (s\<lparr>metrics := m\<rparr>) = heap_run p b s"
  "heap_run p (travel_bus b) s = heap_run p b s"
  by (simp_all add: heap_run_def travel_bus_def)

lemma bus_exec_heap:
  assumes "bus_exec l g p b s = Inr s'" "no_getters s" "heap_run p b s"
  shows "heap_inv s'"
  using assms(1,2)
proof (rule bus_exec_rule[where I = "\<lambda>l. heap_run p" and Q = heap_inv])
  show "heap_run p b s" by fact
next
  fix b s
  assume h: "heap_run p b s"
  have sub: "set (alighting b s) \<subseteq> set (onboard b)"
    "set (foldl (\<lambda>xs a. remove1 a xs) (onboard b) (alighting b s)) \<subseteq> set (onboard b)"
    by (auto simp: alighting_def intro: set_fold_remove1[THEN subsetD])
  from h have p: "p < length (map riders (procs s))"
    by (simp add: heap_run_def)
  from h have "heap_ok (now s) (pax s) (map_of (stops_map s))
      ((map riders (procs s))[p := onboard b]) ((map holding (procs s))[p := None])"
    by (simp add: heap_run_def)
  from heap_ok_alight[OF this, of p "alighting b s" "onboard (alight_bus b s)"] p sub
  have ok: "heap_ok (now s) (alight_pax (now s) (pax s) (alighting b s)) (map_of (stops_map s))
      ((map riders (procs s))[p := onboard (alight_bus b s)]) ((map holding (procs s))[p := None])"
    by (simp add: alight_bus_def)
  with h have run: "heap_run p (alight_bus b s) (alight_sim b s)"
    by (simp add: heap_run_def alight_sim_def)
  show "heap_inv (suspend p (alight_bus b s) PAlighted
            (schedule (of_nat (length (alighting b s)) * ALIGHTING_TIME (cfg s)) 1 (Resume p)
               (alight_sim b s)))"
    using run by (rule heap_run_suspend) simp
  show "heap_run p (alight_bus b s) (alight_sim b s)"
    by (rule run)
next
  fix b s st a as
  assume h: "heap_run p b s" and st: "map_of (stops_map s) (cur_stop b) = Some st"
    and it: "items st = a # as"
  from h have "heap_ok (now s) (pax s) (map_of (stops_map s))
      ((map riders (procs s))[p := onboard b]) ((map holding (procs s))[p := None])"
    and p: "p < length (procs s)"
    by (simp_all add: heap_run_def)
  from heap_ok_take[OF this(1) st it, of p] p
  show "heap_inv (schedule 0 1 (Resume p)
            (suspend p b (PGet (Some a)) (set_stop (cur_stop b) (st\<lparr>items := as\<rparr>) s)))"
    by (simp add: heap_inv_def map_update)
next
  fix b s
  assume h: "heap_run p b s"
  then show "heap_inv (suspend p b PDwelled (schedule (MIN_DWELL (cfg s)) 1 (Resume p) s))"
    by (rule heap_run_suspend) simp
next
  fix b s m
  assume "heap_run p b s"
  then have "heap_run p (travel_bus b) (s\<lparr>metrics := m\<rparr>)"
    by simp
  then show "heap_inv (suspend p (travel_bus b) PTravel
            (schedule (min 1 (t b)) 1 (Resume p) (s\<lparr>metrics := m\<rparr>)))"
    by (rule heap_run_suspend) simp
qed (simp_all add: heap_run_def)

lemma map_proc_update_id: "p < length ps \<Longrightarrow> f (ps ! p) = v \<Longrightarrow> (map f ps)[p := v] = map f ps"
  by (metis list_update_id map_update)

lemma heap_inv_run:
  assumes "heap_inv s" "p < length (procs s)" "procs s ! p = BusP b" "\<And>x. pc b \<noteq> PGet (Some x)"
  shows "heap_run p b s"
proof -
  have "holding (BusP b) = None"
  proof (cases "pc b")
    case (PGet x)
    with assms(4) show ?thesis by (cases x) auto
  qed simp_all
  with assms(2,3) have "(map holding (procs s))[p := None] = map holding (procs s)"
    by (simp add: map_proc_update_id)
  moreover from assms(2,3) have "(map riders (procs s))[p := onboard b] = map riders (procs s)"
    by (simp add: map_proc_update_id)
  ultimately show ?thesis
    using assms(1,2) by (simp add: heap_run_def heap_inv_def)
qed

lemma bus_board_heap:
  assumes "bus_board a p b s = Inr s'" "heap_inv s" "p < length (procs s)" "procs s ! p = BusP b"
    "pc b = PGet (Some a)"
  shows "heap_inv s'"
proof -
  from assms(1) have s': "s' = suspend p
      (b\<lparr>onboard := onboard b @ [a], boarded := boarded b + 1, free_space := free_space b - 1\<rparr>)
      PBoarded
      (schedule (BOARDING_TIME (cfg s)) 1 (Resume p)
        (s\<lparr>pax := (pax s)[a := (pax s ! a)\<lparr>board_time := Some (now s)\<rparr>],
           metrics := record_boarding ((pax s)[a := (pax s ! a)\<lparr>board_time := Some (now s)\<rparr>] ! a)
             (now s) b (metrics s)\<rparr>))"
    by (auto simp: bus_board_def Let_def split: sum.splits)
  from assms(3,4,5) have hd: "map holding (procs s) ! p = Some a" "map riders (procs s) ! p = onboard b"
    by simp_all
  from assms(2) have "heap_ok (now s) (pax s) (map_of (stops_map s)) (map riders (procs s))
      (map holding (procs s))"
    by (simp add: heap_inv_def)
  from heap_ok_board[OF this _ hd(1)] assms(3) hd(2)
  have "heap_ok (now s) ((pax s)[a := (pax s ! a)\<lparr>board_time := Some (now s)\<rparr>])
      (map_of (stops_map s)) ((map riders (procs s))[p := onboard b @ [a]])
      ((map holding (procs s))[p := None])"
    by simp
  then show ?thesis
    unfolding s' by (simp add: heap_inv_def map_update)
qed

lemma bus_resume_heap:
  assumes "bus_resume g p b s = Inr s'" "no_getters s" "heap_inv s" "p < length (procs s)"
    "procs s ! p = BusP b"
  shows "heap_inv s'"
proof -
  have run: "heap_run p b s" if "\<And>x. pc b \<noteq> PGet (Some x)"
    using heap_inv_run[OF assms(3,4,5) that] .
  have exec: "heap_inv s'" if "bus_exec l g p b' s = Inr s'" "heap_run p b' s" for l b'
    using that(1) assms(2) that(2) by (rule bus_exec_heap)
  show ?thesis
  proof (cases "pc b")
    case PStart
    then have "heap_run p b s"
      by (intro run) simp
    then have "heap_inv (suspend p b PStarted (schedule (start_time b) 1 (Resume p) s))"
      by (rule heap_run_suspend) simp
    with assms(1) PStart show ?thesis
      by (auto simp: bus_resume_def split: sum.splits)
  next
    case PStarted
    then have "heap_run p b s"
      by (intro run) simp
    moreover from assms(1) PStarted have "bus_exec LAlight g p b s = Inr s'"
      by (simp add: bus_resume_def)
    ultimately show ?thesis
      by (intro exec)
  next
    case PAlighted
    then have "heap_run p b s"
      by (intro run) simp
    moreover from assms(1) PAlighted have "bus_exec LBoard g p b s = Inr s'"
      by (simp add: bus_resume_def)
    ultimately show ?thesis
      by (intro exec)
  next
    case (PGet x)
    with assms(1) obtain a where a: "x = Some a" "bus_board a p b s = Inr s'"
      by (cases x) (auto simp: bus_resume_def)
    with PGet have "pc b = PGet (Some a)" by simp
    with a(2) assms(3,4,5) show ?thesis
      by (rule bus_board_heap)
  next
    case PBoarded
    then have "heap_run p b s"
      by (intro run) simp
    moreover from assms(1) PBoarded have "bus_exec LLoop g p b s = Inr s'"
      by (simp add: bus_resume_def)
    ultimately show ?thesis
      by (intro exec)
  next
    case PDwelled
    then have "heap_run p b s"
      by (intro run) simp
    moreover from assms(1) PDwelled have "bus_exec LTravel g p b s = Inr s'"
      by (simp add: bus_resume_def)
    ultimately show ?thesis
      by (intro exec)
  next
    case PTravel
    then have "heap_run p b s"
      by (intro run) simp
    then have "heap_run p (b\<lparr>t := t b - step b\<rparr>) s"
      by simp
    moreover from assms(1) PTravel have "bus_exec LWhile g p (b\<lparr>t := t b - step b\<rparr>) s = Inr s'"
      by (simp add: bus_resume_def)
    ultimately show ?thesis
      by (intro exec)
  qed
qed

lemma generator_heap:
  assumes "passenger_generator d p g s = Inr s'" "heap_inv s" "p < length (procs s)"
    "procs s ! p = GenP g"
  shows "heap_inv s'"
proof -
  have keep: "(map riders (procs s))[p := riders (GenP g')] = map riders (procs s)"
    "(map holding (procs s))[p := holding (GenP g')] = map holding (procs s)" for g'
    using assms(3,4) by (simp_all add: map_proc_update_id)
  from assms(2) have ok: "heap_ok (now s) (pax s) (map_of (stops_map s)) (map riders (procs s))
      (map holding (procs s))"
    by (simp add: heap_inv_def)
  show ?thesis
  proof (cases "gpc g")
    case GStart
    with assms(1) have "s' = set_proc p (GenP (g\<lparr>gpc := GWait\<rparr>)) (schedule (expo d) 1 (Resume p) s)"
      by (simp add: passenger_generator_def gen_wait_Inr)
    with ok keep show ?thesis
      by (simp add: heap_inv_def map_update)
  next
    case GWait
    with assms(1) obtain dest st where
      st: "map_of (stops_map s) (gen_stop g) = Some st"
      and s': "s' = set_proc p (GenP (g\<lparr>pid := pid g + 1, gpc := GWait\<rparr>))
        (schedule (expo d) 1 (Resume p)
          (schedule 0 1 (PutDone (gen_stop g))
            (set_stop (gen_stop g) (st\<lparr>items := items st @ [length (pax s)]\<rparr>)
              (s\<lparr>pax := pax s @ [Passenger (gen_stop g @ ''-'' @ str_nat (pid g + 1)) (now s)
                     (gen_stop g) dest]\<rparr>))))"
      by (auto simp: passenger_generator_def gen_arrive_def Let_def add_passenger_Inr gen_wait_Inr
          split: sum.splits)
    let ?psg = "Passenger (gen_stop g @ ''-'' @ str_nat (pid g + 1)) (now s) (gen_stop g) dest"
    from heap_ok_arrive[OF ok st, of ?psg]
    have "heap_ok (now s) (pax s @ [?psg])
        ((map_of (stops_map s))(gen_stop g \<mapsto> st\<lparr>items := items st @ [length (pax s)]\<rparr>))
        (map riders (procs s)) (map holding (procs s))"
      by (simp add: Passenger_def)
    with keep show ?thesis
      unfolding s' by (simp add: heap_inv_def map_update)
  qed
qed

lemma dispatch_heap:
  assumes "dispatch d tg s = Inr s'" "no_getters s" "heap_inv s"
  shows "heap_inv s'"
proof (cases tg)
  case (Resume p)
  with assms(1) have p: "p < length (procs s)"
    by (auto simp: dispatch_def resume_def split: if_splits)
  show ?thesis
  proof (cases "procs s ! p")
    case (GenP g)
    with assms Resume p show ?thesis
      by (auto simp: dispatch_def resume_def intro: generator_heap)
  next
    case (BusP b)
    with assms Resume p show ?thesis
      by (auto simp: dispatch_def resume_def intro: bus_resume_heap)
  next
    case MonP
    with assms Resume p show ?thesis
      by (auto simp: dispatch_def resume_def monitor_def heap_inv_def)
  qed
next
  case (PutDone n)
  with assms have "s' = s"
    by (auto simp: dispatch_def dest: trigger_get_no_getters)
  with assms(3) show ?thesis by simp
qed

lemma heap_inv_step:
  assumes "sim_step d s = Inr s'" "base_inv s" "heap_inv s"
  shows "heap_inv s'"
  using assms(1)
proof (cases rule: sim_step_cases)
  case idle
  with assms(3) show ?thesis by simp
next
  case (event e)
  from assms(2) have ng: "no_getters (popped e s)" and "now s \<le> ev_time e"
    using event(1) by (simp_all add: base_inv_def)
  with assms(3) have "heap_inv (popped e s)"
    by (auto simp: heap_inv_def intro: heap_ok_later)
  with event(4) ng show ?thesis
    by (rule dispatch_heap)
qed

lemma init_heap_inv:
  assumes "init_ok c s"
  shows "heap_inv s"
proof -
  from assms have px: "pax s = []" and fr: "\<forall>v\<in>set (procs s). fresh c v"
    and sp: "\<forall>n st. map_of (stops_map s) n = Some st \<longrightarrow> st = Stop n"
    unfolding init_ok_def by blast+
  have st: "items st = []" if "map_of (stops_map s) n = Some st" for n st
  proof -
    from sp that have "st = Stop n" by blast
    then show ?thesis by (simp add: Stop_def)
  qed
  have hold: "holding v = None" if "fresh c v" for v
    using that by (cases v) auto
  have ride: "riders v = []" if "fresh c v" for v
    using that by (cases v) auto
  from fr hold have h: "map holding (procs s) ! p = None" if "p < length (procs s)" for p
    using that by simp
  from fr ride have r: "map riders (procs s) ! p = []" if "p < length (procs s)" for p
    using that by simp
  have 1: "queued_ok (pax s) (map_of (stops_map s))"
    unfolding queued_ok_def using st by simp
  have 2: "fifo_ok (pax s) (map_of (stops_map s))"
    unfolding fifo_ok_def using st by simp
  have 3: "held_ok (pax s) (map_of (stops_map s)) (map holding (procs s))"
    unfolding held_ok_def using h by simp
  have 4: "riding_ok (pax s) (map riders (procs s))"
    unfolding riding_ok_def using r by simp
  have 5: "times_ok (now s) (pax s)"
    unfolding times_ok_def using px by simp
  have 6: "ordered_ok (pax s)"
    unfolding ordered_ok_def using px by simp
  from 1 2 3 4 5 6 show ?thesis
    by (simp add: heap_inv_def heap_ok_def)
qed

lemma run_heap_inv:
  assumes "run_simulation ds c = Inr s"
  shows "heap_inv s"
proof -
  from assms have r: "sim_run ds (simulation_setup c) = Inr s"
    by (simp add: run_simulation_Inr)
  have "base_inv (simulation_setup c) \<and> heap_inv (simulation_setup c)"
    using init_base_inv[OF init_ok_setup] init_heap_inv[OF init_ok_setup] by simp
  with r have "base_inv s \<and> heap_inv s"
    by (rule sim_run_invariant) (simp add: base_inv_step heap_inv_step)
  then show ?thesis ..
qed

section \<open>Timestamps of a passenger\<close>

text \<open>
  C2. For every passenger that has boarded, \<open>arrival_time \<le> board_time\<close>, and for every
  passenger that has alighted, \<open>board_time \<le> alight_time\<close>: in every state a run reaches,
  for every passenger object ever constructed, a set board time is not before the arrival
  time, and a set alight time comes with a set board time that is not after it.
\<close>

theorem timestamps_monotone:
  assumes "run_simulation ds c = Inr s" and "a < length (pax s)"
  shows "(\<forall>tb. board_time (pax s ! a) = Some tb \<longrightarrow> arrival_time (pax s ! a) \<le> tb) \<and>
         (\<forall>ta. alight_time (pax s ! a) = Some ta \<longrightarrow>
            (\<exists>tb. board_time (pax s ! a) = Some tb \<and> arrival_time (pax s ! a) \<le> tb \<and> tb \<le> ta))"
proof -
  from run_heap_inv[OF assms(1)] have "times_ok (now s) (pax s)"
    by (simp add: heap_inv_def heap_ok_def)
  with assms(2) have
    "\<forall>tb. board_time (pax s ! a) = Some tb \<longrightarrow> arrival_time (pax s ! a) \<le> tb \<and> tb \<le> now s"
    "\<forall>ta. alight_time (pax s ! a) = Some ta \<longrightarrow>
       (\<exists>tb. board_time (pax s ! a) = Some tb \<and> tb \<le> ta \<and> ta \<le> now s)"
    unfolding times_ok_def by blast+
  then show ?thesis
    by (metis option.inject)
qed

lemma sim_run_append:
  "sim_run (ds @ es) s = (case sim_run ds s of Inl e \<Rightarrow> Inl e | Inr s1 \<Rightarrow> sim_run es s1)"
  by (induction ds arbitrary: s) (auto split: sum.splits)

lemma ex_run_more: "run_simulation (ex_draws @ es) ex_config = sim_run es ex_state"
  using ex_run by (auto simp: run_simulation_def sim_run_append split: if_splits)

lemma ex_step_alight:
  "case sim_step (ex_draw 1) ex_state of
     Inl e \<Rightarrow> False
   | Inr s \<Rightarrow> length (pax s) = 3 \<and> arrival_time (pax s ! 0) = 3 / 10 \<and>
       board_time (pax s ! 0) = Some (6 / 5) \<and> alight_time (pax s ! 0) = Some (9 / 5)"
  by code_simp

theorem timestamps_monotone_witness:
  "\<exists>s. run_simulation (ex_draws @ [ex_draw 1]) ex_config = Inr s \<and>
     arrival_time (pax s ! 0) = 3 / 10 \<and> board_time (pax s ! 0) = Some (6 / 5) \<and>
     alight_time (pax s ! 0) = Some (9 / 5) \<and> (3 / 10 :: rat) \<le> 6 / 5 \<and> (6 / 5 :: rat) \<le> 9 / 5"
proof -
  from ex_step_alight obtain s where s: "sim_step (ex_draw 1) ex_state = Inr s"
    "length (pax s) = 3" "arrival_time (pax s ! 0) = 3 / 10"
    "board_time (pax s ! 0) = Some (6 / 5)" "alight_time (pax s ! 0) = Some (9 / 5)"
    by (auto split: sum.splits)
  then have r: "run_simulation (ex_draws @ [ex_draw 1]) ex_config = Inr s"
    by (simp add: ex_run_more)
  from s(2) have a: "0 < length (pax s)" by simp
  from timestamps_monotone[OF r a] r s(3-5) show ?thesis
    by auto
qed

section \<open>Queues are first in, first out\<close>

text \<open>
  C3. Passengers leave a stop's queue in the order they entered it. Addresses are given in
  order of construction, and a passenger is queued at its origin stop as it is constructed;
  in every state a run reaches, for every stop: its queue holds passengers of that origin,
  not yet boarded, in increasing order of address (which is the order of arrival times); of
  two passengers of that origin, the later one has left the queue only if the earlier one
  has; and a get on the stop hands over the head of the queue, whatever its destination.
  In particular, with P1, P2, P3 queued in this order and a bus with two free seats, the
  bus boards P1 then P2 and P3 stays queued: the worked run, where the bus arrives at X at
  step 15.
\<close>

theorem queue_fifo:
  assumes "run_simulation ds c = Inr s" and "map_of (stops_map s) n = Some st"
  shows "sorted_wrt (<) (items st) \<and>
         (\<forall>a\<in>set (items st). a < length (pax s) \<and> origin (pax s ! a) = n \<and>
            board_time (pax s ! a) = None) \<and>
         (\<forall>a1 a2. a1 < a2 \<longrightarrow> a2 < length (pax s) \<longrightarrow>
            arrival_time (pax s ! a1) \<le> arrival_time (pax s ! a2)) \<and>
         (\<forall>a1 a2. a1 < a2 \<longrightarrow> a2 < length (pax s) \<longrightarrow> origin (pax s ! a1) = n \<longrightarrow>
            a2 \<notin> set (items st) \<longrightarrow> origin (pax s ! a2) = n \<longrightarrow> a1 \<notin> set (items st)) \<and>
         (\<forall>a as p b. items st = a # as \<longrightarrow> p < length (procs s) \<longrightarrow>
            get_passenger n p (suspend p b (PGet None) s) =
              Inr (schedule 0 1 (Resume p)
                     (suspend p b (PGet (Some a)) (set_stop n (st\<lparr>items := as\<rparr>) s)))) \<and>
         (case run_simulation (take 14 ex_draws) ex_config of
            Inl e \<Rightarrow> False
          | Inr s0 \<Rightarrow> map (\<lambda>e. (fst e, items (snd e))) (stops_map s0) = [(''X'', [0, 1, 2]), (''Y'', [])] \<and>
              map riders (procs s0) = [[], [], []]) \<and>
         (case run_simulation ex_draws ex_config of
            Inl e \<Rightarrow> False
          | Inr s1 \<Rightarrow> map (\<lambda>e. (fst e, items (snd e))) (stops_map s1) = [(''X'', [2]), (''Y'', [])] \<and>
              map riders (procs s1) = [[], [0, 1], []] \<and>
              map board_time (pax s1) = [Some (6 / 5), Some (5 / 4), None])"
proof -
  from run_heap_inv[OF assms(1)]
  have q: "queued_ok (pax s) (map_of (stops_map s))" and f: "fifo_ok (pax s) (map_of (stops_map s))"
    and o: "ordered_ok (pax s)"
    by (simp_all add: heap_inv_def heap_ok_def)
  from q assms(2) have 1: "sorted_wrt (<) (items st)"
    and 2: "\<forall>a\<in>set (items st). a < length (pax s) \<and> origin (pax s ! a) = n \<and>
            board_time (pax s ! a) = None"
    unfolding queued_ok_def by blast+
  from o have 3: "\<forall>a1 a2. a1 < a2 \<longrightarrow> a2 < length (pax s) \<longrightarrow>
            arrival_time (pax s ! a1) \<le> arrival_time (pax s ! a2)"
    unfolding ordered_ok_def by blast
  have 4: "a1 \<notin> set (items st)"
    if "a1 < a2" "a2 < length (pax s)" "origin (pax s ! a1) = n" "a2 \<notin> set (items st)"
      "origin (pax s ! a2) = n" for a1 a2
  proof
    assume "a1 \<in> set (items st)"
    moreover from f assms(2) that(2,4,5) have "\<forall>q\<in>set (items st). a2 < q"
      unfolding fifo_ok_def by blast
    ultimately have "a2 < a1" by blast
    with that(1) show False by simp
  qed
  from run_base_inv[OF assms(1)] have ng: "no_getters s"
    by (simp add: base_inv_def)
  have 5: "get_passenger n p (suspend p b (PGet None) s) =
              Inr (schedule 0 1 (Resume p)
                     (suspend p b (PGet (Some a)) (set_stop n (st\<lparr>items := as\<rparr>) s)))"
    if "items st = a # as" "p < length (procs s)" for a as p b
    using ng assms(2) that by (rule get_passenger_ready)
  have 6: "case run_simulation (take 14 ex_draws) ex_config of
            Inl e \<Rightarrow> False
          | Inr s0 \<Rightarrow> map (\<lambda>e. (fst e, items (snd e))) (stops_map s0) = [(''X'', [0, 1, 2]), (''Y'', [])] \<and>
              map riders (procs s0) = [[], [], []]"
    by code_simp
  have 7: "case run_simulation ex_draws ex_config of
            Inl e \<Rightarrow> False
          | Inr s1 \<Rightarrow> map (\<lambda>e. (fst e, items (snd e))) (stops_map s1) = [(''X'', [2]), (''Y'', [])] \<and>
              map riders (procs s1) = [[], [0, 1], []] \<and>
              map board_time (pax s1) = [Some (6 / 5), Some (5 / 4), None]"
    by code_simp
  from 1 2 3 4 5 6 7 show ?thesis
    by blast
qed

theorem queue_fifo_witness:
  "sorted_wrt (<) [2 :: nat] \<and> origin (pax ex_state ! 2) = ''X'' \<and>
   board_time (pax ex_state ! 2) = None \<and>
   arrival_time (pax ex_state ! 0) \<le> arrival_time (pax ex_state ! 2) \<and>
   get_passenger ''X'' 1 (suspend 1 ex_bus (PGet None) ex_state) =
     Inr (schedule 0 1 (Resume 1)
            (suspend 1 ex_bus (PGet (Some 2))
               (set_stop ''X'' (\<lparr>stop_name = ''X'', items = [2], get_queue = []\<rparr>\<lparr>items := []\<rparr>)
                  ex_state)))"
proof -
  have st: "map_of (stops_map ex_state) ''X'' = Some \<lparr>stop_name = ''X'', items = [2], get_queue = []\<rparr>"
    and p: "(1::nat) < length (procs ex_state)" and l: "2 < length (pax ex_state)"
    by (simp_all add: ex_state_def)
  from queue_fifo[OF ex_run st] p l show ?thesis
    by simp
qed

section \<open>The queue monitor\<close>

lemma sample_lookup:
  "map_of (sample tm st q) n =
     (if n = stop_name st
      then Some ((case map_of q n of None \<Rightarrow> [] | Some xs \<Rightarrow> xs) @ [(tm, length (items st))])
      else map_of q n)"
  by (simp add: sample_def split: option.splits)

lemma fold_sample_other:
  "n \<notin> stop_name ` set sts \<Longrightarrow> map_of (foldl (\<lambda>q st. sample tm st q) q sts) n = map_of q n"
  by (induction sts arbitrary: q) (simp_all add: sample_lookup)

lemma fold_sample_lookup:
  assumes "distinct (map stop_name sts)" "st \<in> set sts"
  shows "map_of (foldl (\<lambda>q st. sample tm st q) q sts) (stop_name st) =
         Some ((case map_of q (stop_name st) of None \<Rightarrow> [] | Some xs \<Rightarrow> xs) @
               [(tm, length (items st))])"
  using assms
proof (induction sts arbitrary: q)
  case Nil
  then show ?case by simp
next
  case (Cons x sts)
  show ?case
  proof (cases "st = x")
    case True
    from Cons.prems(1) have "stop_name x \<notin> stop_name ` set sts"
      by simp
    from fold_sample_other[OF this] True show ?thesis
      by (simp add: sample_lookup)
  next
    case False
    with Cons.prems have st: "st \<in> set sts" and d: "distinct (map stop_name sts)"
      by auto
    from Cons.prems(1) have "stop_name x \<notin> stop_name ` set sts"
      by simp
    with st have ne: "stop_name st \<noteq> stop_name x"
      by (metis imageI)
    from Cons.IH[OF d st, of "sample tm x q"] ne show ?thesis
      by (simp add: sample_lookup)
  qed
qed

lemma monitor_Inr:
  "monitor p s = Inr s' \<longleftrightarrow>
     s' = schedule 1 1 (Resume p)
       (s\<lparr>metrics := (metrics s)\<lparr>queue_time_series :=
            foldl (\<lambda>q st. sample (now s) st q) (queue_time_series (metrics s))
              (map snd (stops_map s))\<rparr>\<rparr>)"
  by (auto simp: monitor_def)

lemma monitor_series_other:
  assumes "monitor p s = Inr s'" "n \<notin> set (stop_names s)"
  shows "series s' n = series s n"
proof -
  from assms(2) have "n \<notin> stop_name ` set (map snd (stops_map s))"
    by (auto simp: stop_names_def)
  from fold_sample_other[OF this] assms(1) show ?thesis
    by (simp add: monitor_Inr series_def)
qed

lemma monitor_series_stop:
  assumes "monitor p s = Inr s'" "distinct (stop_names s)" "n \<in> set (stop_names s)"
  shows "\<exists>len. series s' n =
     Some ((case series s n of None \<Rightarrow> [] | Some xs \<Rightarrow> xs) @ [(now s, len)])"
proof -
  from assms(3) obtain st where st: "st \<in> set (map snd (stops_map s))" "stop_name st = n"
    by (auto simp: stop_names_def)
  from assms(2) have d: "distinct (map stop_name (map snd (stops_map s)))"
    by (simp add: stop_names_def comp_def)
  from fold_sample_lookup[OF d st(1), of "now s" "queue_time_series (metrics s)"] st(2) assms(1)
  show ?thesis
    by (simp add: monitor_Inr series_def)
qed

lemma step_frame_names: "step_frame tg s s' \<Longrightarrow> stop_names s' = stop_names s"
proof -
  assume "step_frame tg s s'"
  then have "map stop_key (stops_map s') = map stop_key (stops_map s)"
    unfolding step_frame_def by blast
  then have "map snd (map stop_key (stops_map s')) = map snd (map stop_key (stops_map s))"
    by simp
  then show ?thesis
    by (simp add: stop_names_def stop_key_def comp_def)
qed

lemma step_frame_mon: "step_frame tg s s' \<Longrightarrow> procs s' ! q = MonP \<longleftrightarrow> procs s ! q = MonP"
  unfolding step_frame_def by blast

lemma step_frame_queue:
  "step_frame tg s s' \<Longrightarrow>
     \<exists>evs. queue s' = queue s @ evs \<and> (\<forall>e\<in>set evs. now s \<le> ev_time e) \<and>
       (\<forall>q. tg \<noteq> Resume q \<longrightarrow> pending q evs = [])"
  unfolding step_frame_def by (metis le_zero_eq length_0_conv)

lemma generator_series:
  "passenger_generator d p g s = Inr s' \<Longrightarrow> series s' = series s"
  by (auto simp: passenger_generator_def gen_arrive_def Let_def add_passenger_Inr gen_wait_Inr
        series_def fun_eq_iff split: gen_pc.splits sum.splits)

lemma dispatch_series:
  assumes "dispatch d tg s = Inr s'" "no_getters s"
    "\<And>p. tg = Resume p \<Longrightarrow> procs s ! p \<noteq> MonP"
  shows "series s' = series s"
proof (cases tg)
  case (Resume p)
  with assms(1) have p: "p < length (procs s)"
    by (auto simp: dispatch_def resume_def split: if_splits)
  show ?thesis
  proof (cases "procs s ! p")
    case (GenP g)
    with assms(1) Resume p show ?thesis
      by (auto simp: dispatch_def resume_def intro: generator_series)
  next
    case (BusP b)
    with assms(1) Resume p have "bus_resume (gauss d) p b s = Inr s'"
      by (simp add: dispatch_def resume_def)
    from bus_resume_frame[OF this assms(2) p] show ?thesis
      by (simp add: bus_frame_def series_def fun_eq_iff)
  next
    case MonP
    with assms(3)[OF Resume] show ?thesis by simp
  qed
next
  case (PutDone n)
  with assms have "s' = s"
    by (auto simp: dispatch_def dest: trigger_get_no_getters)
  then show ?thesis by simp
qed

lemma mon_inv_step:
  assumes "sim_step d s = Inr s'" "base_inv s" "mon_inv s"
  shows "mon_inv s'"
  using assms(1)
proof (cases rule: sim_step_cases)
  case idle
  with assms(3) show ?thesis by simp
next
  case (event e)
  from assms(2) have ng: "no_getters (popped e s)"
    by (simp add: base_inv_def)
  from dispatch_frame[OF event(4) ng]
  have fr: "step_frame (ev_target e) (popped e s) s'" .
  from step_frame_names[OF fr] have names: "stop_names s' = stop_names s"
    by (simp add: stop_names_def)
  from step_frame_same[OF fr] have len: "length (procs s') = length (procs s)"
    by simp
  from step_frame_mon[OF fr] have mon: "procs s' ! q = MonP \<longleftrightarrow> procs s ! q = MonP" for q
    by simp
  from step_frame_queue[OF fr] obtain evs where evs: "queue s' = remove1 e (queue s) @ evs"
    "\<And>q. ev_target e \<noteq> Resume q \<Longrightarrow> pending q evs = []"
    by auto
  from assms(3) obtain k where d: "distinct (stop_names s)"
    and one: "\<And>p q. p < length (procs s) \<Longrightarrow> q < length (procs s) \<Longrightarrow> procs s ! p = MonP \<Longrightarrow>
        procs s ! q = MonP \<Longrightarrow> p = q"
    and k: "sampled k s"
    unfolding mon_inv_def by blast
  from k have k1: "\<And>n xs. series s n = Some xs \<Longrightarrow> map fst xs = map of_nat [0 ..< k]"
    and k2: "\<And>n. 0 < k \<Longrightarrow> n \<in> set (stop_names s) \<Longrightarrow> series s n \<noteq> None"
    and k3: "\<And>n. series s n \<noteq> None \<Longrightarrow> n \<in> set (stop_names s)"
    and k4: "\<And>x p. x \<in> set (queue s) \<Longrightarrow> ev_target x = Resume p \<Longrightarrow> p < length (procs s) \<Longrightarrow>
        procs s ! p = MonP \<Longrightarrow> ev_time x = of_nat k"
    unfolding sampled_def by blast+
  have old: "x \<in> set (queue s)" if "x \<in> set (remove1 e (queue s))" for x
    using that set_remove1_subset[of e "queue s"] by blast
  have static: "distinct (stop_names s')"
    "\<And>p q. p < length (procs s') \<Longrightarrow> q < length (procs s') \<Longrightarrow> procs s' ! p = MonP \<Longrightarrow>
        procs s' ! q = MonP \<Longrightarrow> p = q"
    using d names one len mon by simp_all
  have "\<exists>k'. sampled k' s'"
  proof (cases "\<exists>p. ev_target e = Resume p \<and> p < length (procs s) \<and> procs s ! p = MonP")
    case True
    then obtain p where p: "ev_target e = Resume p" "p < length (procs s)" "procs s ! p = MonP"
      by blast
    with event(4) have m: "monitor p (popped e s) = Inr s'"
      by (simp add: dispatch_def resume_def)
    from k4[OF event(1) p] have tm: "ev_time e = of_nat k" .
    from d have d': "distinct (stop_names (popped e s))"
      by (simp add: stop_names_def)
    have ser: "series (popped e s) = series s"
      by (simp add: series_def fun_eq_iff)
    have nm: "stop_names (popped e s) = stop_names s"
      by (simp add: stop_names_def)
    have 1: "map fst xs = map of_nat [0 ..< Suc k]" if "series s' n = Some xs" for n xs
    proof (cases "n \<in> set (stop_names s)")
      case True
      with monitor_series_stop[OF m d', of n] that tm obtain len where
        xs: "xs = (case series s n of None \<Rightarrow> [] | Some ys \<Rightarrow> ys) @ [(of_nat k, len)]"
        by (auto simp: ser nm)
      show ?thesis
      proof (cases "series s n")
        case None
        with k2[OF _ True] have "k = 0" by auto
        with xs None show ?thesis by simp
      next
        case (Some ys)
        with k1 have "map fst ys = map of_nat [0 ..< k]" by blast
        with xs Some show ?thesis by simp
      qed
    next
      case False
      with monitor_series_other[OF m, of n] that have "series s n = Some xs"
        by (simp add: ser nm)
      with k3[of n] False show ?thesis by simp
    qed
    have 2: "series s' n \<noteq> None" if "n \<in> set (stop_names s')" for n
      using monitor_series_stop[OF m d', of n] that names by (auto simp: nm)
    have 3: "n \<in> set (stop_names s')" if "series s' n \<noteq> None" for n
    proof (rule ccontr)
      assume "n \<notin> set (stop_names s')"
      with names have n: "n \<notin> set (stop_names s)" by simp
      with monitor_series_other[OF m, of n] that have "series s n \<noteq> None"
        by (simp add: ser nm)
      with k3[of n] n show False by simp
    qed
    from m have q': "queue s' = remove1 e (queue s) @
        [\<lparr>ev_time = ev_time e + 1, ev_prio = 1, ev_id = next_eid s, ev_target = Resume p\<rparr>]"
      by (simp add: monitor_Inr)
    from assms(2) have "length (pending p (queue s)) \<le> 1"
      by (simp add: base_inv_def)
    from pending_popped[OF this event(1) p(1)] have none: "pending p (remove1 e (queue s)) = []" .
    have 4: "ev_time x = of_nat (Suc k)"
      if "x \<in> set (queue s')" "ev_target x = Resume q" "q < length (procs s')" "procs s' ! q = MonP"
      for x q
    proof -
      from that(3,4) len mon have "q < length (procs s)" "procs s ! q = MonP" by simp_all
      with one p have qp: "q = p" by blast
      from that(1) q' consider "x \<in> set (remove1 e (queue s))"
        | "x = \<lparr>ev_time = ev_time e + 1, ev_prio = 1, ev_id = next_eid s, ev_target = Resume p\<rparr>"
        by auto
      then show ?thesis
      proof cases
        case 1
        with that(2) qp have "x \<in> set (pending p (remove1 e (queue s)))"
          by (simp add: pending_def)
        with none show ?thesis by simp
      next
        case 2
        with tm show ?thesis by simp
      qed
    qed
    from 1 2 3 4 have "sampled (Suc k) s'"
      unfolding sampled_def by blast
    then show ?thesis ..
  next
    case False
    have nomon: "procs (popped e s) ! p \<noteq> MonP" if "ev_target e = Resume p" for p
    proof -
      from event(4) that have "p < length (procs s)"
        by (auto simp: dispatch_def resume_def split: if_splits)
      with False that show ?thesis by auto
    qed
    from dispatch_series[OF event(4) ng nomon] have ser: "series s' = series s"
      by (simp add: series_def fun_eq_iff)
    have 4: "ev_time x = of_nat k"
      if "x \<in> set (queue s')" "ev_target x = Resume q" "q < length (procs s')" "procs s' ! q = MonP"
      for x q
    proof -
      from that(3,4) len mon have q: "q < length (procs s)" "procs s ! q = MonP" by simp_all
      with False have ne: "ev_target e \<noteq> Resume q" by blast
      from that(1) evs(1) consider "x \<in> set (remove1 e (queue s))" | "x \<in> set evs"
        by auto
      then show ?thesis
      proof cases
        case 1
        from k4[OF old[OF 1] that(2) q] show ?thesis .
      next
        case 2
        with that(2) have "x \<in> set (pending q evs)"
          by (simp add: pending_def)
        with evs(2)[OF ne] show ?thesis by simp
      qed
    qed
    from k1 k2 k3 4 ser names have "sampled k s'"
      unfolding sampled_def by simp
    then show ?thesis ..
  qed
  with static show ?thesis
    unfolding mon_inv_def by blast
qed

subsection \<open>The monitor at setup\<close>

lemma before_monitor_Bus: "before_monitor c s \<Longrightarrow> before_monitor c (Bus bid rn sts ri st s)"
  by (simp add: before_monitor_def Bus_def)

lemma before_monitor_start_generator:
  "before_monitor c s \<Longrightarrow> before_monitor c (start_generator rs s e)"
  by (simp add: before_monitor_def start_generator_def split: option.splits)

lemma before_monitor_foldl:
  "(\<And>s x. before_monitor c s \<Longrightarrow> before_monitor c (f s x)) \<Longrightarrow> before_monitor c s \<Longrightarrow>
     before_monitor c (foldl f s xs)"
  by (induction xs arbitrary: s) auto

lemma before_monitor_start_buses: "before_monitor c s \<Longrightarrow> before_monitor c (start_buses s e)"
  unfolding start_buses_def
  by (rule before_monitor_foldl) (auto intro: before_monitor_Bus)

lemma dict_set_keys:
  "map fst (dict_set k v m) = (if k \<in> fst ` set m then map fst m else map fst m @ [k])"
proof (induction m)
  case Nil
  then show ?case by simp
next
  case (Cons e m)
  obtain a b where e: "e = (a, b)" by (cases e)
  show ?case
  proof (cases "k = a")
    case True
    with e show ?thesis by simp
  next
    case False
    with e Cons.IH show ?thesis by (simp add: image_iff)
  qed
qed

lemma dict_set_set: "set (dict_set k v m) \<subseteq> insert (k, v) (set m)"
proof (induction m)
  case Nil
  then show ?case by simp
next
  case (Cons e m)
  obtain a b where e: "e = (a, b)" by (cases e)
  with Cons.IH show ?case
    by (cases "k = a") auto
qed

lemma keyed_stops_set: "keyed_stops m \<Longrightarrow> keyed_stops (dict_set n (Stop n) m)"
  unfolding keyed_stops_def
proof (intro conjI ballI)
  assume a: "distinct (map fst m) \<and> (\<forall>e\<in>set m. stop_name (snd e) = fst e)"
  then show "distinct (map fst (dict_set n (Stop n) m))"
    by (simp add: dict_set_keys)
  fix e
  assume "e \<in> set (dict_set n (Stop n) m)"
  with dict_set_set[of n "Stop n" m] have "e = (n, Stop n) \<or> e \<in> set m"
    by blast
  with a show "stop_name (snd e) = fst e"
    by (auto simp: Stop_def)
qed

lemma keyed_stops_route:
  "keyed_stops m \<Longrightarrow> keyed_stops (foldl (\<lambda>m n. dict_set n (Stop n) m) m ns)"
  by (induction ns arbitrary: m) (simp_all add: keyed_stops_set)

lemma keyed_stops_routes:
  "keyed_stops m \<Longrightarrow>
     keyed_stops (foldl (\<lambda>m r. foldl (\<lambda>m n. dict_set n (Stop n) m) m (stops r)) m rs)"
  by (induction rs arbitrary: m) (simp_all add: keyed_stops_route)

lemma keyed_stops_create: "keyed_stops (create_stops rs)"
  unfolding create_stops_def
  by (rule keyed_stops_routes) (simp add: keyed_stops_def)

lemma keyed_stops_names: "keyed_stops m \<Longrightarrow> distinct (map (\<lambda>e. stop_name (snd e)) m)"
proof -
  assume k: "keyed_stops m"
  then have eq: "map (\<lambda>e. stop_name (snd e)) m = map fst m"
    by (intro map_cong) (simp_all add: keyed_stops_def)
  from k have "distinct (map fst m)"
    by (simp add: keyed_stops_def)
  then show ?thesis
    by (simp only: eq)
qed

lemma before_monitor_setup:
  "\<exists>s. before_monitor c s \<and> init_ok c s \<and> simulation_setup c = process MonP s"
proof -
  let ?s0 = "\<lparr>cfg = c, now = 0, next_eid = 0, queue = [], procs = [],
              stops_map = create_stops (ROUTES c), pax = [], metrics = empty_metrics\<rparr>"
  let ?s1 = "foldl (start_generator (map snd (ROUTES c))) ?s0 (ARRIVAL_RATES c)"
  let ?s2 = "foldl start_buses ?s1 (ROUTES c)"
  have b0: "before_monitor c ?s0"
    by (simp add: before_monitor_def)
  have b1: "before_monitor c ?s1"
    by (rule before_monitor_foldl) (auto intro: before_monitor_start_generator b0)
  have b2: "before_monitor c ?s2"
    by (rule before_monitor_foldl) (auto intro: before_monitor_start_buses b1)
  have 0: "init_ok c ?s0"
    by (auto simp: init_ok_def empty_metrics_def dest: create_stops_Stop)
  have 1: "init_ok c ?s1"
    by (rule init_ok_foldl) (auto intro: init_ok_start_generator 0)
  have 2: "init_ok c ?s2"
    by (rule init_ok_foldl) (auto intro: init_ok_start_buses 1)
  have "simulation_setup c = process MonP ?s2"
    by (simp add: simulation_setup_def Let_def)
  with b2 2 show ?thesis
    by blast
qed

lemma init_mon_inv: "mon_inv (simulation_setup c)"
proof -
  from before_monitor_setup obtain s where s: "before_monitor c s" "init_ok c s"
    "simulation_setup c = process MonP s"
    by blast
  let ?s = "simulation_setup c"
  from s(1,3) have st: "stops_map ?s = create_stops (ROUTES c)"
    and pr: "procs ?s = procs s @ [MonP]" and no: "MonP \<notin> set (procs s)"
    by (simp_all add: before_monitor_def)
  from keyed_stops_names[OF keyed_stops_create] st have 1: "distinct (stop_names ?s)"
    by (simp add: stop_names_def)
  have 2: "p = q" if "p < length (procs ?s)" "q < length (procs ?s)" "procs ?s ! p = MonP"
    "procs ?s ! q = MonP" for p q
  proof -
    have last: "r = length (procs s)" if "r < length (procs ?s)" "procs ?s ! r = MonP" for r
    proof (rule ccontr)
      assume "r \<noteq> length (procs s)"
      with that(1) pr have r: "r < length (procs s)" by simp
      with that(2) pr have "procs s ! r = MonP" by (simp add: nth_append)
      with r no show False by (metis nth_mem)
    qed
    from last[OF that(1,3)] last[OF that(2,4)] show ?thesis by simp
  qed
  from init_ok_setup[of c] have q: "queue ?s = map start_event [0 ..< length (procs ?s)]"
    and m: "queue_time_series (metrics ?s) = []"
    by (simp_all add: init_ok_def)
  have 3: "sampled 0 ?s"
    unfolding sampled_def using q m by (auto simp: series_def start_event_def)
  from 1 2 3 show ?thesis
    unfolding mon_inv_def by blast
qed

lemma run_mon_inv:
  assumes "run_simulation ds c = Inr s"
  shows "mon_inv s"
proof -
  from assms have r: "sim_run ds (simulation_setup c) = Inr s"
    by (simp add: run_simulation_Inr)
  have "base_inv (simulation_setup c) \<and> mon_inv (simulation_setup c)"
    using init_base_inv[OF init_ok_setup] init_mon_inv by simp
  with r have "base_inv s \<and> mon_inv s"
    by (rule sim_run_invariant) (simp add: base_inv_step mon_inv_step)
  then show ?thesis ..
qed

section \<open>Configuration errors\<close>




section \<open>Board times within a boarding burst\<close>









lemma burst_times_t [simp]: "burst_times BT H (b\<lparr>t := x\<rparr>) = burst_times BT H b"
  unfolding burst_times_def fun_eq_iff by simp



lemma burst_times_travel [simp]: "burst_times BT H (travel_bus b) = burst_times BT H b"
  unfolding burst_times_def travel_bus_def fun_eq_iff by simp


lemma heap_inv_riders:
  assumes "heap_inv s" "p < length (procs s)" "procs s ! p = BusP b" "x \<in> set (onboard b)"
  shows "x < length (pax s) \<and> board_time (pax s ! x) \<noteq> None"
proof -
  from assms(1) have "riding_ok (pax s) (map riders (procs s))"
    by (simp add: heap_inv_def heap_ok_def)
  moreover from assms(2,3,4) have "p < length (map riders (procs s))"
    "x \<in> set (map riders (procs s) ! p)"
    by simp_all
  ultimately show ?thesis
    unfolding riding_ok_def by blast
qed

lemma heap_inv_held:
  assumes "heap_inv s" "p < length (procs s)" "procs s ! p = BusP b" "pc b = PGet (Some a)"
  shows "a < length (pax s) \<and> board_time (pax s ! a) = None"
proof -
  from assms(1) have "held_ok (pax s) (map_of (stops_map s)) (map holding (procs s))"
    by (simp add: heap_inv_def heap_ok_def)
  moreover from assms(2,3,4) have "p < length (map holding (procs s))"
    "map holding (procs s) ! p = Some a"
    by simp_all
  ultimately show ?thesis
    unfolding held_ok_def by blast
qed











section \<open>One boarding delay for each passenger\<close>



section \<open>What the monitor records\<close>

lemma monitor_series_sample:
  assumes "monitor p s = Inr s'" "distinct (stop_names s)" "n \<in> set (stop_names s)"
  shows "\<exists>e\<in>set (stops_map s). stop_name (snd e) = n \<and>
     series s' n = Some ((case series s n of None \<Rightarrow> [] | Some xs \<Rightarrow> xs) @
                         [(now s, length (items (snd e)))])"
proof -
  from assms(3) obtain e where e: "e \<in> set (stops_map s)" "stop_name (snd e) = n"
    by (auto simp: stop_names_def)
  then have st: "snd e \<in> set (map snd (stops_map s))"
    by simp
  from assms(2) have d: "distinct (map stop_name (map snd (stops_map s)))"
    by (simp add: stop_names_def comp_def)
  from fold_sample_lookup[OF d st, of "now s" "queue_time_series (metrics s)"] e(2) assms(1)
  have "series s' n = Some ((case series s n of None \<Rightarrow> [] | Some xs \<Rightarrow> xs) @
                         [(now s, length (items (snd e)))])"
    by (simp add: monitor_Inr series_def)
  with e show ?thesis
    by blast
qed

lemma sample_of_more:
  assumes "sample_of c ds n i x"
  shows "sample_of c (ds @ es) n i x"
proof -
  from assms obtain m where m: "m \<le> length ds"
    "case run_simulation (take m ds) c of
          Inl e \<Rightarrow> False
        | Inr si \<Rightarrow> now si = of_nat i \<and>
            (\<exists>e\<in>set (stops_map si). stop_name (snd e) = n \<and>
               x = (of_nat i, length (items (snd e))))"
    unfolding sample_of_def by blast
  from m(1) have eq: "take m (ds @ es) = take m ds" and le: "m \<le> length (ds @ es)"
    by simp_all
  show ?thesis
    unfolding sample_of_def
  proof (intro exI[of _ m] conjI)
    show "m \<le> length (ds @ es)" by (rule le)
    show "case run_simulation (take m (ds @ es)) c of
          Inl e \<Rightarrow> False
        | Inr si \<Rightarrow> now si = of_nat i \<and>
            (\<exists>e\<in>set (stops_map si). stop_name (snd e) = n \<and>
               x = (of_nat i, length (items (snd e))))"
      using m(2) by (simp only: eq)
  qed
qed

lemma sample_of_now:
  assumes "run_simulation ds c = Inr s" "now s = of_nat i" "e \<in> set (stops_map s)"
  shows "sample_of c ds (stop_name (snd e)) i (of_nat i, length (items (snd e)))"
  unfolding sample_of_def
proof (intro exI[of _ "length ds"] conjI)
  show "length ds \<le> length ds" by simp
  from assms show "case run_simulation (take (length ds) ds) c of
          Inl e \<Rightarrow> False
        | Inr si \<Rightarrow> now si = of_nat i \<and>
            (\<exists>e'\<in>set (stops_map si). stop_name (snd e') = stop_name (snd e) \<and>
               (of_nat i, length (items (snd e))) = (of_nat i, length (items (snd e'))))"
    by auto
qed

lemma sampled_count:
  assumes "sampled k s" "has_monitor s" "sampled k' s"
  shows "k' = k"
proof -
  from assms(2) obtain p e where pe: "p < length (procs s)" "procs s ! p = MonP"
    "e \<in> set (queue s)" "ev_target e = Resume p"
    unfolding has_monitor_def by blast
  from assms(1) pe have "ev_time e = of_nat k"
    unfolding sampled_def by blast
  moreover from assms(3) pe have "ev_time e = of_nat k'"
    unfolding sampled_def by blast
  ultimately have "(of_nat k' :: rat) = of_nat k"
    by simp
  then show ?thesis
    by simp
qed

lemma run_simulation_snoc:
  assumes "run_simulation (ds @ [d]) c = Inr s'"
  obtains s where "run_simulation ds c = Inr s" "sim_step d s = Inr s'"
proof -
  from assms have pos: "\<not> SIM_TIME c \<le> 0"
    and r: "sim_run (ds @ [d]) (simulation_setup c) = Inr s'"
    by (auto simp: run_simulation_def split: if_splits)
  from r obtain s where "sim_run ds (simulation_setup c) = Inr s" "sim_step d s = Inr s'"
    by (auto simp: sim_run_append split: sum.splits)
  with pos have "run_simulation ds c = Inr s" "sim_step d s = Inr s'"
    by (simp_all add: run_simulation_def)
  then show ?thesis
    by (rule that)
qed

lemma init_sampling:
  assumes "run_simulation [] c = Inr s"
  shows "sampling c [] s 0"
proof -
  from assms have s: "s = simulation_setup c"
    by (auto simp: run_simulation_def split: if_splits)
  from before_monitor_setup obtain s0 where s0: "simulation_setup c = process MonP s0"
    by blast
  from init_ok_setup[of c] have q: "queue s = map start_event [0 ..< length (procs s)]"
    and m: "queue_time_series (metrics s) = []"
    by (simp_all add: init_ok_def s)
  have 1: "sampled 0 s"
    unfolding sampled_def using q m by (auto simp: series_def start_event_def)
  from s s0 have pr: "procs s = procs s0 @ [MonP]"
    by (simp add: process_def)
  then have p: "length (procs s0) < length (procs s)" "procs s ! length (procs s0) = MonP"
    by simp_all
  with q have "start_event (length (procs s0)) \<in> set (queue s)"
    by simp
  with p have 2: "has_monitor s"
    unfolding has_monitor_def by (intro exI[of _ "length (procs s0)"] exI[of _ "start_event (length (procs s0))"])
      (simp add: start_event_def)
  from m have 3: "series s n = None" for n
    by (simp add: series_def)
  from 1 2 3 show ?thesis
    by (simp add: sampling_def)
qed

lemma sampling_step:
  assumes run: "run_simulation ds c = Inr s" and step: "sim_step d s = Inr s'"
    and run': "run_simulation (ds @ [d]) c = Inr s'"
    and inv: "sampling c ds s k"
  shows "\<exists>k'. sampling c (ds @ [d]) s' k'"
  using step
proof (cases rule: sim_step_cases)
  case idle
  with inv have "sampling c (ds @ [d]) s' k"
    unfolding sampling_def by (auto intro: sample_of_more)
  then show ?thesis ..
next
  case (event e)
  from run_base_inv[OF run] have base: "base_inv s" .
  then have ng: "no_getters (popped e s)" and later: "now s \<le> ev_time e"
    using event(1) by (simp_all add: base_inv_def)
  from run_mon_inv[OF run] have d: "distinct (stop_names s)"
    and one: "\<And>p q. p < length (procs s) \<Longrightarrow> q < length (procs s) \<Longrightarrow> procs s ! p = MonP \<Longrightarrow>
        procs s ! q = MonP \<Longrightarrow> p = q"
    unfolding mon_inv_def by blast+
  from run_mon_inv[OF run'] obtain k' where k': "sampled k' s'"
    unfolding mon_inv_def by blast
  from inv have k: "sampled k s"
    and hist: "\<And>n xs i. series s n = Some xs \<Longrightarrow> i < length xs \<Longrightarrow> sample_of c ds n i (xs ! i)"
    and hm: "has_monitor s" and clock: "0 < k \<Longrightarrow> of_nat (k - 1) \<le> now s"
    unfolding sampling_def by blast+
  from k have k1: "\<And>n xs. series s n = Some xs \<Longrightarrow> map fst xs = map of_nat [0 ..< k]"
    and k2: "\<And>n. 0 < k \<Longrightarrow> n \<in> set (stop_names s) \<Longrightarrow> series s n \<noteq> None"
    and k3: "\<And>n. series s n \<noteq> None \<Longrightarrow> n \<in> set (stop_names s)"
    and k4: "\<And>x p. x \<in> set (queue s) \<Longrightarrow> ev_target x = Resume p \<Longrightarrow> p < length (procs s) \<Longrightarrow>
        procs s ! p = MonP \<Longrightarrow> ev_time x = of_nat k"
    unfolding sampled_def by blast+
  from hm obtain p0 e0 where pe0: "p0 < length (procs s)" "procs s ! p0 = MonP"
    "e0 \<in> set (queue s)" "ev_target e0 = Resume p0"
    unfolding has_monitor_def by blast
  from dispatch_frame[OF event(4) ng]
  have fr: "step_frame (ev_target e) (popped e s) s'" .
  from step_frame_same[OF fr] have len: "length (procs s') = length (procs s)"
    and now': "now s' = ev_time e"
    by simp_all
  from step_frame_mon[OF fr] have mon: "procs s' ! q = MonP \<longleftrightarrow> procs s ! q = MonP" for q
    by simp
  from step_frame_queue[OF fr] obtain evs where evs: "queue s' = remove1 e (queue s) @ evs"
    by auto
  show ?thesis
  proof (cases "ev_target e = Resume p0")
    case True
    with event(4) pe0 have m: "monitor p0 (popped e s) = Inr s'"
      by (simp add: dispatch_def resume_def)
    from k4[OF event(1) True pe0(1,2)] have tm: "ev_time e = of_nat k" .
    from d have d': "distinct (stop_names (popped e s))"
      by (simp add: stop_names_def)
    have ser: "series (popped e s) = series s"
      by (simp add: series_def fun_eq_iff)
    have nm: "stop_names (popped e s) = stop_names s"
      by (simp add: stop_names_def)
    from m have q': "queue s' = remove1 e (queue s) @
        [\<lparr>ev_time = ev_time e + 1, ev_prio = 1, ev_id = next_eid s, ev_target = Resume p0\<rparr>]"
      and sm: "stops_map s' = stops_map s"
      by (simp_all add: monitor_Inr)
    let ?e' = "\<lparr>ev_time = ev_time e + 1, ev_prio = 1, ev_id = next_eid s, ev_target = Resume p0\<rparr>"
    have hm': "has_monitor s'"
      unfolding has_monitor_def
      using pe0(1,2) len mon q' by (intro exI[of _ p0] exI[of _ ?e']) simp
    have "ev_time ?e' = of_nat k'"
      using k' pe0(1,2) len mon q' unfolding sampled_def
      by (metis in_set_conv_decomp event.select_convs(4))
    with tm have "(of_nat k' :: rat) = of_nat (Suc k)"
      by simp
    then have kk: "k' = Suc k"
      using of_nat_eq_iff by blast
    have h: "sample_of c (ds @ [d]) n i (xs ! i)"
      if "series s' n = Some xs" "i < length xs" for n xs i
    proof (cases "n \<in> set (stop_names s)")
      case False
      with monitor_series_other[OF m, of n] that(1) have "series s n = Some xs"
        by (simp add: ser nm)
      with k3[of n] False show ?thesis by simp
    next
      case True
      with monitor_series_sample[OF m d', of n] obtain x where
        x: "x \<in> set (stops_map s)" "stop_name (snd x) = n"
        "series s' n = Some ((case series s n of None \<Rightarrow> [] | Some ys \<Rightarrow> ys) @
            [(ev_time e, length (items (snd x)))])"
        by (auto simp: ser nm)
      define old where "old = (case series s n of None \<Rightarrow> [] | Some ys \<Rightarrow> ys)"
      have lo: "length old = k"
      proof (cases "series s n")
        case None
        with k2[OF _ True] have "k = 0" by auto
        with None show ?thesis by (simp add: old_def)
      next
        case (Some ys)
        with k1 have "map fst ys = map of_nat [0 ..< k]" by blast
        then have "length (map fst ys) = length (map (of_nat :: nat \<Rightarrow> rat) [0 ..< k])"
          by simp
        with Some show ?thesis by (simp add: old_def)
      qed
      from x(3) that(1) tm have xs: "xs = old @ [(of_nat k, length (items (snd x)))]"
        by (simp add: old_def)
      show ?thesis
      proof (cases "i < k")
        case lt: True
        with lo xs have eq: "xs ! i = old ! i"
          by (simp add: nth_append)
        from lt lo obtain ys where ys: "series s n = Some ys" "old = ys"
          by (cases "series s n") (auto simp: old_def)
        from hist[OF ys(1), of i] lt lo ys(2) have "sample_of c ds n i (old ! i)"
          by simp
        with eq show ?thesis
          by (simp add: sample_of_more)
      next
        case ge: False
        with that(2) xs lo have ik: "i = k" by simp
        from lo have "(old @ [(of_nat k :: rat, length (items (snd x)))]) ! k =
            (of_nat k, length (items (snd x)))"
          by (metis nth_append_length)
        with xs ik have eq: "xs ! i = (of_nat k, length (items (snd x)))"
          by simp
        from x(1) sm have "x \<in> set (stops_map s')" by simp
        from sample_of_now[OF run' _ this, of k] now' tm x(2) eq ik show ?thesis
          by simp
      qed
    qed
    from k' kk h hm' now' tm have "sampling c (ds @ [d]) s' (Suc k)"
      unfolding sampling_def by simp
    then show ?thesis ..
  next
    case False
    have nomon: "procs (popped e s) ! p \<noteq> MonP" if "ev_target e = Resume p" for p
    proof
      assume mp: "procs (popped e s) ! p = MonP"
      from event(4) that have "p < length (procs s)"
        by (auto simp: dispatch_def resume_def split: if_splits)
      with mp one[OF this pe0(1) _ pe0(2)] have "p = p0" by simp
      with that False show False by simp
    qed
    from dispatch_series[OF event(4) ng nomon] have ser: "series s' = series s"
      by (simp add: series_def fun_eq_iff)
    from False pe0(4) have "e0 \<noteq> e" by auto
    with pe0(3) have "e0 \<in> set (remove1 e (queue s))"
      by simp
    with evs have e0': "e0 \<in> set (queue s')"
      by simp
    have hm': "has_monitor s'"
      unfolding has_monitor_def
      using pe0(1,2,4) len mon e0' by (intro exI[of _ p0] exI[of _ e0]) simp
    from k' pe0 e0' len mon have "ev_time e0 = of_nat k'"
      unfolding sampled_def by metis
    moreover from k4[OF pe0(3,4,1,2)] have "ev_time e0 = of_nat k" .
    ultimately have "(of_nat k' :: rat) = of_nat k"
      by simp
    then have kk: "k' = k"
      using of_nat_eq_iff by blast
    have cl: "0 < k \<Longrightarrow> of_nat (k - 1) \<le> now s'"
      using clock later now' by simp
    have h: "sample_of c (ds @ [d]) n i (xs ! i)"
      if "series s' n = Some xs" "i < length xs" for n xs i
      using hist[of n xs i] that by (simp add: ser sample_of_more)
    from k' kk h hm' cl have "sampling c (ds @ [d]) s' k"
      unfolding sampling_def by simp
    then show ?thesis ..
  qed
qed

lemma run_sampling:
  "run_simulation ds c = Inr s \<Longrightarrow> \<exists>k. sampling c ds s k"
proof (induction ds arbitrary: s rule: rev_induct)
  case Nil
  from init_sampling[OF this] show ?case ..
next
  case (snoc d ds)
  from snoc.prems obtain s0 where s0: "run_simulation ds c = Inr s0" "sim_step d s0 = Inr s"
    by (rule run_simulation_snoc)
  from snoc.IH[OF s0(1)] obtain k where "sampling c ds s0 k" ..
  with s0 snoc.prems show ?case
    by (rule sampling_step)
qed

text \<open>
  C8 (as amended). The queue monitor records a sample for every stop first, when it is
  started at virtual time 0, and only then suspends for the sampling interval of one time
  unit. In every state a run reaches there is a number \<open>k\<close> of turns the monitor has made:
  the series of every stop (every stop has one, once a turn was made) has exactly \<open>k\<close>
  samples; its \<open>i\<close>-th sample, counted from 0, is the pair of the time \<open>i\<close> and the
  length that the queue of the stop had in a state of the run at time \<open>i\<close>, so the first
  sample is taken at time 0 and successive ones exactly 1 apart; the monitor is suspended
  until time \<open>k\<close>; and the clock lies between the last sample and the next one,
  \<open>k - 1 \<le> now \<le> k\<close>.
\<close>

theorem monitor_sample_times:
  assumes "run_simulation ds c = Inr s"
  shows "\<exists>k. (\<forall>n xs. map_of (queue_time_series (metrics s)) n = Some xs \<longrightarrow>
                length xs = k \<and> (\<forall>i<k. sample_of c ds n i (xs ! i))) \<and>
             (0 < k \<longrightarrow> (\<forall>e\<in>set (stops_map s).
                map_of (queue_time_series (metrics s)) (stop_name (snd e)) \<noteq> None)) \<and>
             (\<exists>p e. p < length (procs s) \<and> procs s ! p = MonP \<and> e \<in> set (queue s) \<and>
                ev_target e = Resume p \<and> ev_time e = of_nat k) \<and>
             now s \<le> of_nat k \<and> (0 < k \<longrightarrow> of_nat (k - 1) \<le> now s)"
proof -
  from run_sampling[OF assms] obtain k where k: "sampled k s"
    and hist: "\<And>n xs i. series s n = Some xs \<Longrightarrow> i < length xs \<Longrightarrow> sample_of c ds n i (xs ! i)"
    and hm: "has_monitor s" and clock: "0 < k \<longrightarrow> of_nat (k - 1) \<le> now s"
    unfolding sampling_def by blast
  from k have k1: "\<And>n xs. series s n = Some xs \<Longrightarrow> map fst xs = map of_nat [0 ..< k]"
    and k2: "0 < k \<longrightarrow> (\<forall>n\<in>set (stop_names s). series s n \<noteq> None)"
    and k4: "\<And>x p. x \<in> set (queue s) \<Longrightarrow> ev_target x = Resume p \<Longrightarrow> p < length (procs s) \<Longrightarrow>
        procs s ! p = MonP \<Longrightarrow> ev_time x = of_nat k"
    unfolding sampled_def by blast+
  have 1: "length xs = k \<and> (\<forall>i<k. sample_of c ds n i (xs ! i))"
    if "map_of (queue_time_series (metrics s)) n = Some xs" for n xs
  proof -
    from that have ser: "series s n = Some xs"
      by (simp add: series_def)
    from k1[OF ser] have "length (map fst xs) = length (map (of_nat :: nat \<Rightarrow> rat) [0 ..< k])"
      by simp
    then have "length xs = k" by simp
    with hist[OF ser] show ?thesis by simp
  qed
  from k2 have 2: "0 < k \<longrightarrow> (\<forall>e\<in>set (stops_map s).
                map_of (queue_time_series (metrics s)) (stop_name (snd e)) \<noteq> None)"
    by (simp add: series_def stop_names_def)
  from hm obtain p e where pe: "p < length (procs s)" "procs s ! p = MonP"
    "e \<in> set (queue s)" "ev_target e = Resume p"
    unfolding has_monitor_def by blast
  from k4[OF pe(3,4,1,2)] have tm: "ev_time e = of_nat k" .
  with pe have 3: "\<exists>p e. p < length (procs s) \<and> procs s ! p = MonP \<and> e \<in> set (queue s) \<and>
                ev_target e = Resume p \<and> ev_time e = of_nat k"
    by blast
  from run_base_inv[OF assms] pe(3) have "now s \<le> ev_time e"
    by (simp add: base_inv_def)
  with tm have 4: "now s \<le> of_nat k"
    by simp
  from 1 2 3 4 clock show ?thesis
    by blast
qed

theorem monitor_sample_times_witness:
  "map_of (queue_time_series (metrics ex_state)) ''X'' = Some [(0, 0), (1, 3)] \<and>
   sample_of ex_config ex_draws ''X'' 0 (0, 0) \<and>
   sample_of ex_config ex_draws ''X'' 1 (1, 3) \<and>
   now ex_state \<le> of_nat 2 \<and> (of_nat (2 - 1) :: rat) \<le> now ex_state"
proof -
  have x: "map_of (queue_time_series (metrics ex_state)) ''X'' = Some [(0, 0), (1, 3)]"
    by (simp add: ex_state_def)
  from monitor_sample_times[OF ex_run] obtain k where
    k: "\<forall>n xs. map_of (queue_time_series (metrics ex_state)) n = Some xs \<longrightarrow>
          length xs = k \<and> (\<forall>i<k. sample_of ex_config ex_draws n i (xs ! i))"
    and c: "now ex_state \<le> of_nat k" "0 < k \<longrightarrow> of_nat (k - 1) \<le> now ex_state"
    by blast
  from k x have l: "length [(0 :: rat, 0 :: nat), (1, 3)] = k"
    and h: "\<forall>i<k. sample_of ex_config ex_draws ''X'' i ([(0, 0), (1, 3)] ! i)"
    by blast+
  from l have k2: "k = 2" by simp
  from k2 have "0 < k" "1 < k" by simp_all
  with h have "sample_of ex_config ex_draws ''X'' 0 ([(0, 0), (1, 3)] ! 0)"
    "sample_of ex_config ex_draws ''X'' 1 ([(0, 0), (1, 3)] ! 1)"
    by blast+
  with x c k2 show ?thesis
    by simp
qed

text \<open>
  The claim as first stated has the first sample of each stop at virtual time 1. In the
  worked run, after the three processes were started (three steps), the clock is at 0 and
  stop X already has its first sample, taken at time 0.
\<close>

theorem monitor_first_sample_counterexample:
  "case run_simulation (take 3 ex_draws) ex_config of
     Inl e \<Rightarrow> False
   | Inr s \<Rightarrow> now s = 0 \<and> map_of (queue_time_series (metrics s)) ''X'' = Some [(0, 0)] \<and>
       fst (hd [(0 :: rat, 0 :: nat)]) \<noteq> 1"
  by code_simp

section \<open>Stop visits\<close>

lemma fold_remove1_Cons:
  "\<forall>a\<in>set as. a \<noteq> x \<Longrightarrow>
     foldl (\<lambda>xs a. remove1 a xs) (x # ys) as = x # foldl (\<lambda>xs a. remove1 a xs) ys as"
  by (induction as arbitrary: ys) simp_all

lemma fold_remove1_filter:
  "foldl (\<lambda>xs a. remove1 a xs) xs (filter P xs) = filter (\<lambda>x. \<not> P x) xs"
proof (induction xs)
  case Nil
  then show ?case by simp
next
  case (Cons x xs)
  show ?case
  proof (cases "P x")
    case True
    with Cons.IH show ?thesis by simp
  next
    case False
    then have "\<forall>a\<in>set (filter P xs). a \<noteq> x"
      by auto
    from fold_remove1_Cons[OF this] Cons.IH False show ?thesis
      by simp
  qed
qed

lemma left_after_alighting:
  "filter (\<lambda>x. x \<notin> set (filter (\<lambda>x. \<not> P x) xs)) xs = filter P xs"
  by (rule filter_cong) auto

lemma joined_after_alighting:
  "filter (\<lambda>x. x \<notin> set xs) (filter (\<lambda>x. \<not> P x) xs) = []"
  by (simp add: filter_empty_conv)

lemma none_left: "filter (\<lambda>x. x \<notin> set xs) xs = []"
  by (simp add: filter_empty_conv)

lemma alight_bus_onboard:
  "onboard (alight_bus b s) =
     filter (\<lambda>a. \<not> destination (pax s ! a) = bus_stops b ! current_index b) (onboard b)"
  by (simp add: alight_bus_def alighting_def fold_remove1_filter)

lemma alight_bus_left:
  "filter (\<lambda>x. x \<notin> set (onboard (alight_bus b s))) (onboard b) = alighting b s"
  unfolding alight_bus_onboard alighting_def by (rule left_after_alighting)

lemma alight_bus_joined:
  "filter (\<lambda>x. x \<notin> set (onboard b)) (onboard (alight_bus b s)) = []"
  unfolding alight_bus_onboard by (rule joined_after_alighting)

lemma bus_exec_visit:
  assumes "bus_exec l g p b s = Inr s'" "no_getters s" "p < length (procs s)"
    and "l = LBoard \<longrightarrow> alighted b = na \<and> nb = 0"
    and "l = LLoop \<longrightarrow> alighted b = na \<and> boarded b = nb"
    and "l = LWhile \<longrightarrow> \<not> 0 < t b"
    and "l = LWhile \<or> l = LAlight \<longrightarrow> na = 0 \<and> nb = 0"
    and "l = LBoard \<or> l = LLoop \<or> l = LWhile \<or> l = LAlight"
  shows "visit_post p na nb (onboard b) s'"
proof -
  define on0 where "on0 = onboard b"
  define I where "I = (\<lambda>(l::label) (b1::bus) (s1::sim). p < length (procs s1) \<and>
      onboard b1 = on0 \<and>
      (l = LBoard \<longrightarrow> alighted b1 = na \<and> nb = 0) \<and>
      (l = LLoop \<or> l = LDwell \<longrightarrow> alighted b1 = na \<and> boarded b1 = nb) \<and>
      (l = LTravel \<longrightarrow> 0 < na \<or> 0 < nb) \<and>
      (l = LWhile \<longrightarrow> (if 0 < t b1 then 0 < na \<or> 0 < nb else na = 0 \<and> nb = 0)) \<and>
      (l = LAdvance \<or> l = LAlight \<longrightarrow> na = 0 \<and> nb = 0))"
  have "visit_post p na nb on0 s'"
    using assms(1,2)
  proof (rule bus_exec_rule[where I = I and Q = "\<lambda>s'::sim. visit_post p na nb on0 s'"])
    show "I l b s"
      using assms(3-8) by (auto simp: I_def on0_def)
  next
    fix b1 :: bus and s1 :: sim
    assume i: "I LAlight b1 s1" and ne: "alighting b1 s1 \<noteq> []"
    then have p: "p < length (procs s1)" and on: "onboard b1 = on0" and z: "na = 0" "nb = 0"
      by (simp_all add: I_def)
    have "tally (length (alighting b1 s1)) 0 ((alight_bus b1 s1)\<lparr>pc := PAlighted\<rparr>)"
      by (simp add: tally_def alight_bus_def)
    then have "tally (na + length (filter (\<lambda>x. x \<notin> set (onboard (alight_bus b1 s1))) on0))
        (nb + length (filter (\<lambda>x. x \<notin> set on0) (onboard (alight_bus b1 s1))))
        ((alight_bus b1 s1)\<lparr>pc := PAlighted\<rparr>)"
      using alight_bus_left[of b1 s1] alight_bus_joined[of b1 s1] by (simp add: on z)
    with p show "visit_post p na nb on0 (suspend p (alight_bus b1 s1) PAlighted
        (schedule (of_nat (length (alighting b1 s1)) * ALIGHTING_TIME (cfg s1)) 1 (Resume p)
          (alight_sim b1 s1)))"
      by (simp add: visit_post_def alight_sim_def)
  next
    fix b1 :: bus and s1 :: sim
    assume "I LAlight b1 s1" "alighting b1 s1 = []"
    then show "I LBoard (alight_bus b1 s1) (alight_sim b1 s1)"
      by (simp add: I_def alight_bus_def alight_sim_def)
  next
    fix b1 :: bus and s1 :: sim and st a as
    assume i: "I LLoop b1 s1"
    then have p: "p < length (procs s1)" and on: "onboard b1 = on0"
      and c: "alighted b1 = na" "boarded b1 = nb"
      by (simp_all add: I_def)
    have "tally na nb (b1\<lparr>pc := PGet (Some a)\<rparr>)"
      using c by (simp add: tally_def)
    with p on show "visit_post p na nb on0 (schedule 0 1 (Resume p)
            (suspend p b1 (PGet (Some a)) (set_stop (cur_stop b1) (st\<lparr>items := as\<rparr>) s1)))"
      by (simp add: visit_post_def none_left)
  next
    fix b1 :: bus and s1 :: sim
    assume i: "I LDwell b1 s1" and z: "boarded b1 = 0" "alighted b1 = 0"
    then have p: "p < length (procs s1)" and on: "onboard b1 = on0" and c: "na = 0" "nb = 0"
      by (simp_all add: I_def)
    have "tally na nb (b1\<lparr>pc := PDwelled\<rparr>)"
      using c by (simp add: tally_def)
    with p on show "visit_post p na nb on0
        (suspend p b1 PDwelled (schedule (MIN_DWELL (cfg s1)) 1 (Resume p) s1))"
      by (simp add: visit_post_def none_left)
  next
    fix b1 :: bus and s1 :: sim and m
    assume i: "I LWhile b1 s1" and pos: "0 < t b1"
    then have p: "p < length (procs s1)" and on: "onboard b1 = on0" and c: "0 < na \<or> 0 < nb"
      by (simp_all add: I_def)
    have "tally na nb ((travel_bus b1)\<lparr>pc := PTravel\<rparr>)"
      using c by (simp add: tally_def travel_bus_def)
    moreover have "onboard (travel_bus b1) = on0" "t (travel_bus b1) = t b1"
      using on by (simp_all add: travel_bus_def)
    ultimately show "visit_post p na nb on0 (suspend p (travel_bus b1) PTravel
        (schedule (min 1 (t b1)) 1 (Resume p) (s1\<lparr>metrics := m\<rparr>)))"
      using p by (simp add: visit_post_def none_left)
  next
    fix b1 :: bus and s1 :: sim
    assume "I LDwell b1 s1" "\<not> (boarded b1 = 0 \<and> alighted b1 = 0)"
    then show "I LTravel b1 s1"
      by (auto simp: I_def)
  next
    fix b1 :: bus and s1 :: sim
    assume "I LTravel b1 s1"
    then show "I LWhile (b1\<lparr>t := travel_time g\<rparr>) s1"
      using travel_time_half(2)[of g] by (simp add: I_def)
  next
    fix b1 :: bus and s1 :: sim
    assume "I LWhile b1 s1" "\<not> 0 < t b1"
    then show "I LAdvance b1 s1"
      by (simp add: I_def)
  qed (simp_all add: I_def)
  then show ?thesis
    by (simp add: on0_def)
qed

lemma bus_board_visit:
  assumes "bus_board a p b s = Inr s'" "p < length (procs s)" "a \<notin> set (onboard b)"
    "alighted b = na" "boarded b = nb"
  shows "visit_post p na nb (onboard b) s'"
proof -
  let ?H = "(pax s)[a := (pax s ! a)\<lparr>board_time := Some (now s)\<rparr>]"
  let ?b = "b\<lparr>onboard := onboard b @ [a], boarded := boarded b + 1,
              free_space := free_space b - 1\<rparr>"
  from assms(1) have s': "s' = suspend p ?b PBoarded
      (schedule (BOARDING_TIME (cfg s)) 1 (Resume p)
        (s\<lparr>pax := ?H, metrics := record_boarding (?H ! a) (now s) b (metrics s)\<rparr>))"
    by (auto simp: bus_board_def Let_def split: sum.splits)
  have "filter (\<lambda>x. x \<notin> set (onboard b @ [a])) (onboard b) = []"
    by (simp add: filter_empty_conv)
  moreover have "filter (\<lambda>x. x \<notin> set (onboard b)) (onboard b @ [a]) = [a]"
    using assms(3) by (simp add: filter_empty_conv)
  moreover have "tally na (nb + 1) (?b\<lparr>pc := PBoarded\<rparr>)"
    using assms(4,5) by (simp add: tally_def)
  ultimately show ?thesis
    using assms(2) by (simp add: s' visit_post_def)
qed

lemma bus_resume_visit:
  assumes "bus_resume g p b s = Inr s'" "no_getters s" "heap_inv s" "p < length (procs s)"
    "procs s ! p = BusP b"
    and start: "((pc b = PStarted \<or> (pc b = PTravel \<and> t b \<le> step b)) \<and> na = 0 \<and> nb = 0) \<or>
        ((pc b = PAlighted \<or> pc b = PBoarded \<or> (\<exists>x. pc b = PGet x)) \<and> tally na nb b)"
  shows "visit_post p na nb (onboard b) s'"
proof (cases "pc b")
  case PStart
  with start show ?thesis by simp
next
  case PStarted
  with assms(1) have "bus_exec LAlight g p b s = Inr s'"
    by (simp add: bus_resume_def)
  from this assms(2,4) show ?thesis
    by (rule bus_exec_visit) (use PStarted start in simp_all)
next
  case PAlighted
  with assms(1) have "bus_exec LBoard g p b s = Inr s'"
    by (simp add: bus_resume_def)
  from this assms(2,4) show ?thesis
    by (rule bus_exec_visit) (use PAlighted start in \<open>simp_all add: tally_def\<close>)
next
  case (PGet x)
  show ?thesis
  proof (cases x)
    case None
    with PGet assms(1) show ?thesis
      by (simp add: bus_resume_def)
  next
    case (Some a)
    with PGet have k: "pc b = PGet (Some a)" by simp
    with assms(1) have bb: "bus_board a p b s = Inr s'"
      by (simp add: bus_resume_def)
    from heap_inv_held[OF assms(3,4,5) k] have "board_time (pax s ! a) = None"
      by simp
    with heap_inv_riders[OF assms(3,4,5)] have "a \<notin> set (onboard b)"
      by blast
    with bb assms(4) show ?thesis
      by (rule bus_board_visit) (use k start in \<open>simp_all add: tally_def\<close>)
  qed
next
  case PBoarded
  with assms(1) have "bus_exec LLoop g p b s = Inr s'"
    by (simp add: bus_resume_def)
  from this assms(2,4) show ?thesis
    by (rule bus_exec_visit) (use PBoarded start in \<open>simp_all add: tally_def\<close>)
next
  case PDwelled
  with start show ?thesis by simp
next
  case PTravel
  with assms(1) have r: "bus_exec LWhile g p (b\<lparr>t := t b - step b\<rparr>) s = Inr s'"
    by (simp add: bus_resume_def)
  from assms(4) have p: "p < length (procs s)" .
  have "visit_post p na nb (onboard (b\<lparr>t := t b - step b\<rparr>)) s'"
    using r assms(2) p by (rule bus_exec_visit) (use PTravel start in simp_all)
  then show ?thesis by simp
qed

lemma visit_post_same:
  assumes "procs s ! p = BusP b" "tally na nb b"
    "pc b = PAlighted \<or> pc b = PBoarded \<or> (\<exists>x. pc b = PGet x)"
  shows "visit_post p na nb (onboard b) s"
  unfolding visit_post_def using assms by (intro exI[of _ b]) (auto simp: none_left)

lemma visit_step:
  assumes "sim_step d s = Inr s'" "base_inv s" "heap_inv s" "p < length (procs s)"
    "procs s ! p = BusP b"
    and start: "((pc b = PStarted \<or> (pc b = PTravel \<and> t b \<le> step b)) \<and> na = 0 \<and> nb = 0 \<and>
          procs s' ! p \<noteq> procs s ! p) \<or>
        ((pc b = PAlighted \<or> pc b = PBoarded \<or> (\<exists>x. pc b = PGet x)) \<and> tally na nb b)"
  shows "visit_post p na nb (onboard b) s'"
proof -
  have same: ?thesis if "procs s' ! p = procs s ! p"
  proof -
    from that start have "(pc b = PAlighted \<or> pc b = PBoarded \<or> (\<exists>x. pc b = PGet x))"
      "tally na nb b"
      by auto
    with that assms(5) show ?thesis
      by (intro visit_post_same) simp_all
  qed
  from assms(1) show ?thesis
  proof (cases rule: sim_step_cases)
    case idle
    then show ?thesis by (intro same) simp
  next
    case (event e)
    from assms(2) have ng: "no_getters (popped e s)" and "now s \<le> ev_time e"
      using event(1) by (simp_all add: base_inv_def)
    with assms(3) have hp: "heap_inv (popped e s)"
      by (auto simp: heap_inv_def intro: heap_ok_later)
    from dispatch_frame[OF event(4) ng]
    have fr: "step_frame (ev_target e) (popped e s) s'" .
    show ?thesis
    proof (cases "ev_target e = Resume p")
      case False
      from step_frame_other[OF fr False] show ?thesis
        by (intro same) simp
    next
      case True
      with event(4) assms(4,5) have r: "bus_resume (gauss d) p b (popped e s) = Inr s'"
        by (simp add: dispatch_def resume_def)
      from start have "((pc b = PStarted \<or> (pc b = PTravel \<and> t b \<le> step b)) \<and> na = 0 \<and> nb = 0) \<or>
        ((pc b = PAlighted \<or> pc b = PBoarded \<or> (\<exists>x. pc b = PGet x)) \<and> tally na nb b)"
        by blast
      moreover from assms(4,5) have "p < length (procs (popped e s))"
        "procs (popped e s) ! p = BusP b"
        by simp_all
      ultimately show ?thesis
        using r ng hp by (intro bus_resume_visit[where s = "popped e s" and g = "gauss d"])
    qed
  qed
qed

lemma sim_step_length:
  assumes "sim_step d s = Inr s'" "base_inv s"
  shows "length (procs s') = length (procs s)"
  using assms(1)
proof (cases rule: sim_step_cases)
  case idle
  then show ?thesis by simp
next
  case (event e)
  from assms(2) have ng: "no_getters (popped e s)"
    by (simp add: base_inv_def)
  from step_frame_same[OF dispatch_frame[OF event(4) ng]] show ?thesis
    by simp
qed

lemma visit_post_visiting:
  assumes "visit_post p na nb (onboard b) s'" "procs s ! p = BusP b" "p < length (procs s)"
    "sim_step d s = Inr s'" "base_inv s" "heap_inv s"
  shows "visiting p (na + alighted_in p s s') (nb + boarded_in p s s') s'"
proof -
  from assms(1) obtain b' where b': "procs s' ! p = BusP b'"
    "tally (na + length (filter (\<lambda>x. x \<notin> set (onboard b')) (onboard b)))
           (nb + length (filter (\<lambda>x. x \<notin> set (onboard b)) (onboard b'))) b'"
    "pc b' = PDwelled \<longrightarrow>
           (\<exists>e\<in>set (queue s'). ev_target e = Resume p \<and>
              ev_time e = now s' + MIN_DWELL (cfg s'))"
    "pc b' = PTravel \<longrightarrow>
           (\<exists>e\<in>set (queue s'). ev_target e = Resume p \<and> ev_time e = now s' + min 1 (t b'))"
    unfolding visit_post_def by blast
  from b'(1) assms(2) have "alighted_in p s s' = length (filter (\<lambda>x. x \<notin> set (onboard b')) (onboard b))"
    "boarded_in p s s' = length (filter (\<lambda>x. x \<notin> set (onboard b)) (onboard b'))"
    by (simp_all add: alighted_in_def boarded_in_def riding_def)
  with b'(2) have "tally (na + alighted_in p s s') (nb + boarded_in p s s') b'"
    by simp
  moreover from assms(4,5) have "base_inv s'"
    by (rule base_inv_step)
  moreover from assms(4,5,6) have "heap_inv s'"
    by (rule heap_inv_step)
  moreover from sim_step_length[OF assms(4,5)] assms(3) have "p < length (procs s')"
    by simp
  ultimately show ?thesis
    unfolding visiting_def using b'(1,3,4) by blast
qed

lemma visit_visiting: "visit c p na nb s \<Longrightarrow> visiting p na nb s"
proof (induction rule: visit.induct)
  case (arrive ds s d s')
  from run_base_inv[OF arrive(1)] have base: "base_inv s" .
  from run_heap_inv[OF arrive(1)] have heap: "heap_inv s" .
  from arrive(2) obtain b where p: "p < length (procs s)" and b: "procs s ! p = BusP b"
    and k: "pc b = PStarted \<or> (pc b = PTravel \<and> t b \<le> step b)"
    by (auto simp: arriving_def split: proc.splits)
  from arrive(3) base heap p b have "visit_post p 0 0 (onboard b) s'"
    by (rule visit_step) (use k arrive(4) in simp)
  from visit_post_visiting[OF this b p arrive(3) base heap] show ?case
    by simp
next
  case (stay na nb s d s')
  from stay.IH obtain b where base: "base_inv s" and heap: "heap_inv s"
    and p: "p < length (procs s)" and b: "procs s ! p = BusP b" and tl: "tally na nb b"
    unfolding visiting_def by blast
  from stay(2) b have k: "pc b = PAlighted \<or> pc b = PBoarded \<or> (\<exists>x. pc b = PGet x)"
    by (auto simp: mid_visit_def split: bus_pc.splits)
  from stay(3) base heap p b have "visit_post p na nb (onboard b) s'"
    by (rule visit_step) (use k tl in simp)
  from this b p stay(3) base heap show ?case
    by (rule visit_post_visiting)
qed

section \<open>The minimum dwell\<close>

lemma ex_visit_idle:
  "case run_simulation (take 3 ex_draws) ex_config of
     Inl e \<Rightarrow> False
   | Inr s3 \<Rightarrow> arriving 1 s3 \<and>
       (case sim_step (ex_draws ! 3) s3 of
          Inl e \<Rightarrow> False
        | Inr s4 \<Rightarrow> procs s4 ! 1 \<noteq> procs s3 ! 1 \<and> alighted_in 1 s3 s4 = 0 \<and>
            boarded_in 1 s3 s4 = 0 \<and> \<not> mid_visit 1 s4)"
  by code_simp

lemma ex_visit_boarding:
  "case run_simulation (take 14 ex_draws) ex_config of
     Inl e \<Rightarrow> False
   | Inr s14 \<Rightarrow> arriving 1 s14 \<and>
       (case sim_step (ex_draws ! 14) s14 of
          Inl e \<Rightarrow> False
        | Inr s15 \<Rightarrow> procs s15 ! 1 \<noteq> procs s14 ! 1 \<and> alighted_in 1 s14 s15 = 0 \<and>
            boarded_in 1 s14 s15 = 0 \<and> mid_visit 1 s15 \<and>
            (case sim_step (ex_draws ! 15) s15 of
               Inl e \<Rightarrow> False
             | Inr s16 \<Rightarrow> alighted_in 1 s15 s16 = 0 \<and> boarded_in 1 s15 s16 = 1 \<and>
                 mid_visit 1 s16 \<and>
                 (case sim_step (ex_draws ! 16) s16 of
                    Inl e \<Rightarrow> False
                  | Inr s17 \<Rightarrow> alighted_in 1 s16 s17 = 0 \<and> boarded_in 1 s16 s17 = 0 \<and>
                      mid_visit 1 s17 \<and>
                      (case sim_step (ex_draws ! 17) s17 of
                         Inl e \<Rightarrow> False
                       | Inr s18 \<Rightarrow> alighted_in 1 s17 s18 = 0 \<and> boarded_in 1 s17 s18 = 1 \<and>
                           mid_visit 1 s18 \<and>
                           (case sim_step (ex_draws ! 18) s18 of
                              Inl e \<Rightarrow> False
                            | Inr s19 \<Rightarrow> alighted_in 1 s18 s19 = 0 \<and>
                                boarded_in 1 s18 s19 = 0 \<and> s19 = ex_state)))))"
  by code_simp

text \<open>
  C4. For every stop visit of every bus, the minimum-dwell suspension is taken if and only
  if no passenger boarded and no passenger alighted during that visit. A visit of the bus
  \<open>p\<close> begins with the step of a run that resumes the bus when it arrives at a stop, and
  lasts as long as the bus is suspended after alighting or in the boarding loop; \<open>na\<close> and
  \<open>nb\<close> are the numbers of passengers that left and joined the \<open>onboard\<close> list of the bus
  over the steps of the visit. When the visit is over, the bus is suspended for
  \<open>MIN_DWELL\<close> exactly if \<open>na = 0\<close> and \<open>nb = 0\<close>; and it is suspended in the first step
  of its travel leg, without any dwell delay, exactly if a passenger alighted or boarded.
\<close>

theorem dwell_iff_idle:
  assumes "visit c p na nb s" and "\<not> mid_visit p s"
  shows "(dwelling p s \<longleftrightarrow> na = 0 \<and> nb = 0) \<and> (travelling p s \<longleftrightarrow> 0 < na \<or> 0 < nb)"
proof -
  from visit_visiting[OF assms(1)] obtain b where p: "p < length (procs s)"
    and b: "procs s ! p = BusP b" and tl: "tally na nb b"
    and dw: "pc b = PDwelled \<longrightarrow>
           (\<exists>e\<in>set (queue s). ev_target e = Resume p \<and>
              ev_time e = now s + MIN_DWELL (cfg s))"
    and tr: "pc b = PTravel \<longrightarrow>
           (\<exists>e\<in>set (queue s). ev_target e = Resume p \<and> ev_time e = now s + min 1 (t b))"
    unfolding visiting_def by blast
  from assms(2) p b tl consider "pc b = PDwelled" "na = 0" "nb = 0"
    | "pc b = PTravel" "0 < na \<or> 0 < nb"
    by (cases "pc b") (auto simp: mid_visit_def tally_def)
  then show ?thesis
  proof cases
    case 1
    with dw b show ?thesis
      by (simp add: dwelling_def travelling_def)
  next
    case 2
    with tr b show ?thesis
      by (auto simp: dwelling_def travelling_def)
  qed
qed

theorem dwell_iff_idle_witness:
  "(\<exists>s. visit ex_config 1 0 0 s \<and> \<not> mid_visit 1 s \<and> dwelling 1 s \<and> \<not> travelling 1 s) \<and>
   visit ex_config 1 0 2 ex_state \<and> \<not> mid_visit 1 ex_state \<and> \<not> dwelling 1 ex_state \<and>
   travelling 1 ex_state"
proof -
  from ex_visit_idle obtain s3 s4 where
    i: "run_simulation (take 3 ex_draws) ex_config = Inr s3" "arriving 1 s3"
      "sim_step (ex_draws ! 3) s3 = Inr s4" "procs s4 ! 1 \<noteq> procs s3 ! 1"
      "alighted_in 1 s3 s4 = 0" "boarded_in 1 s3 s4 = 0" "\<not> mid_visit 1 s4"
    by (auto split: sum.splits)
  from visit.arrive[OF i(1-4)] i(5,6) have v4: "visit ex_config 1 0 0 s4"
    by simp
  from dwell_iff_idle[OF v4 i(7)] have "dwelling 1 s4" "\<not> travelling 1 s4"
    by simp_all
  with v4 i(7) have 1: "\<exists>s. visit ex_config 1 0 0 s \<and> \<not> mid_visit 1 s \<and> dwelling 1 s \<and>
      \<not> travelling 1 s"
    by blast
  from ex_visit_boarding obtain s14 s15 s16 s17 s18 where
    r: "run_simulation (take 14 ex_draws) ex_config = Inr s14" "arriving 1 s14"
      "sim_step (ex_draws ! 14) s14 = Inr s15" "procs s15 ! 1 \<noteq> procs s14 ! 1"
    and c15: "alighted_in 1 s14 s15 = 0" "boarded_in 1 s14 s15 = 0" "mid_visit 1 s15"
    and s16: "sim_step (ex_draws ! 15) s15 = Inr s16"
    and c16: "alighted_in 1 s15 s16 = 0" "boarded_in 1 s15 s16 = 1" "mid_visit 1 s16"
    and s17: "sim_step (ex_draws ! 16) s16 = Inr s17"
    and c17: "alighted_in 1 s16 s17 = 0" "boarded_in 1 s16 s17 = 0" "mid_visit 1 s17"
    and s18: "sim_step (ex_draws ! 17) s17 = Inr s18"
    and c18: "alighted_in 1 s17 s18 = 0" "boarded_in 1 s17 s18 = 1" "mid_visit 1 s18"
    and s19: "sim_step (ex_draws ! 18) s18 = Inr ex_state"
    and c19: "alighted_in 1 s18 ex_state = 0" "boarded_in 1 s18 ex_state = 0"
    by (auto split: sum.splits)
  from visit.arrive[OF r] c15 have v15: "visit ex_config 1 0 0 s15"
    by simp
  from visit.stay[OF v15 c15(3) s16] c16 have v16: "visit ex_config 1 0 1 s16"
    by simp
  from visit.stay[OF v16 c16(3) s17] c17 have v17: "visit ex_config 1 0 1 s17"
    by simp
  from visit.stay[OF v17 c17(3) s18] c18 have v18: "visit ex_config 1 0 2 s18"
    by (simp add: numeral_2_eq_2)
  from visit.stay[OF v18 c18(3) s19] c19 have v19: "visit ex_config 1 0 2 ex_state"
    by (simp add: numeral_2_eq_2)
  have nm: "\<not> mid_visit 1 ex_state"
    by (simp add: mid_visit_def ex_state_def ex_bus_def)
  from dwell_iff_idle[OF v19 nm] have "\<not> dwelling 1 ex_state" "travelling 1 ex_state"
    by simp_all
  with 1 v19 nm show ?thesis
    by blast
qed

end
